theory Spec2Isabelle
  imports Main "HOL-Library.Word"
begin

unbundle bit_operations_syntax

section \<open>The sensor-side EV3 UART protocol parser\<close>

text \<open>
  A shallow embedding of \<^verbatim>\<open>EV3UartProtocolParserSensorSide.hpp\<close> and
  \<^verbatim>\<open>EV3UartProtocolParserSensorSide.cpp\<close>. A \<^verbatim>\<open>uint8_t\<close> is an \<open>8 word\<close>; the
  parser object is a record that every operation takes and returns; an access outside
  the buffer array (undefined behaviour in C++) is the value \<open>None\<close>.
\<close>

type_synonym byte = "8 word"

subsection \<open>Collaborators that the parser includes\<close>

text \<open>
  The enumerations \<^verbatim>\<open>Magics::SYS\<close> and \<^verbatim>\<open>Magics::CMD\<close> of \<^verbatim>\<open>magics.hpp\<close> are taken
  as a parameter: a record of the six enumerators that the parser reads.
\<close>

record Magics =
  SYS_BASE :: byte
  ACK :: byte
  NACK :: byte
  CMD_BASE :: byte
  SELECT :: byte
  WRITE :: byte

text \<open>
  The header layout of the protocol: the message type is in bits 6 and 7, the subtype in
  bits 0 to 2 (bits 3 to 5 carry the length code). The four labels of the \<^verbatim>\<open>switch\<close> in
  \<^verbatim>\<open>analyze_header\<close> are pairwise distinct, as C++ requires of case labels.
\<close>

definition labels_distinct :: "Magics \<Rightarrow> bool" where
  "labels_distinct m =
     distinct [SYS_BASE m OR ACK m, SYS_BASE m OR NACK m,
               CMD_BASE m OR SELECT m, CMD_BASE m OR WRITE m]"

definition layout_ok :: "Magics \<Rightarrow> bool" where
  "layout_ok m =
     (SYS_BASE m AND 0x3f = 0 \<and> CMD_BASE m AND 0x3f = 0 \<and>
      ACK m AND 0xf8 = 0 \<and> NACK m AND 0xf8 = 0 \<and>
      SELECT m AND 0xf8 = 0 \<and> WRITE m AND 0xf8 = 0)"

definition magics_ok :: "Magics \<Rightarrow> bool" where
  "magics_ok m = (layout_ok m \<and> labels_distinct m)"

text \<open>
  \<^verbatim>\<open>Framing::checksum(buffer, n)\<close> of \<^verbatim>\<open>framing.hpp\<close> is taken as a parameter too: a
  function of the \<open>n\<close> bytes it is handed.
\<close>

type_synonym checksum = "byte list \<Rightarrow> byte"

text \<open>
  Modelled from the spec: \<^verbatim>\<open>Framing::BUFFER_MIN\<close> is declared in \<^verbatim>\<open>framing.hpp\<close>, which
  is not among the sources; the minimum capacity is 34 bytes (1 header + 32 payload +
  1 checksum).
\<close>

definition BUFFER_MIN :: nat where
  "BUFFER_MIN = 34"

definition BUFFER_LEN :: nat where
  "BUFFER_LEN = BUFFER_MIN"

subsection \<open>Utilities of the header file\<close>

text \<open>
  \<^verbatim>\<open>two_pow\<close> shifts the \<^verbatim>\<open>int\<close> 1 and narrows the result to \<^verbatim>\<open>uint8_t\<close>. The parser
  only calls it with a three-bit argument.
\<close>

definition two_pow :: "byte \<Rightarrow> byte" where
  "two_pow val = push_bit (unat val) 1"

datatype State = WAIT_HEADER | WAIT_CHECKSUM

definition STATE_START :: State where
  "STATE_START = WAIT_HEADER"

definition STATE_END :: State where
  "STATE_END = WAIT_CHECKSUM"

fun state_code :: "State \<Rightarrow> byte" where
  "state_code WAIT_HEADER = 0"
| "state_code WAIT_CHECKSUM = 1"

text \<open>The cast back from \<^verbatim>\<open>uint8_t\<close>; \<^verbatim>\<open>next_state\<close> only ever casts the code 1.\<close>

definition state_of_code :: "byte \<Rightarrow> State" where
  "state_of_code c = (if c = 0 then WAIT_HEADER else WAIT_CHECKSUM)"

definition next_state :: "State \<Rightarrow> State" where
  "next_state st =
     (if state_code st \<noteq> state_code STATE_END then state_of_code (state_code st + 1)
      else STATE_START)"

datatype ParseResult =
    INSUFFICIENT_DATA
  | RECEIVED_INVALID_HEADER
  | RECEIVED_SYS_ACK
  | RECEIVED_SYS_NACK
  | RECEIVED_CMD_SELECT
  | RECEIVED_CMD_WRITE
  | RECEIVED_CMD_INVALID_FCS

record ParserReturn =
  res :: ParseResult
  hdr :: byte
  len :: byte

record HeaderInformation =
  header_valid :: bool
  header_sanitized :: byte
  info_payload_length :: byte

record Parser =
  buffer :: "byte list"
  message_payload_length :: byte
  message_pending_bytes :: byte
  current_state :: State

subsection \<open>Header analysis\<close>

definition payload_length :: "byte \<Rightarrow> byte" where
  "payload_length h = two_pow (drop_bit 3 h AND 0x07)"

definition analyze_header :: "Magics \<Rightarrow> byte \<Rightarrow> HeaderInformation" where
  "analyze_header m h =
     (let info = \<lparr>header_valid = False, header_sanitized = h AND 0xc7,
                  info_payload_length = 0x00\<rparr>;
          payload_len_code = drop_bit 3 h AND 0x07
      in if header_sanitized info = SYS_BASE m OR ACK m then
           (if payload_len_code = 0 then info\<lparr>header_valid := True\<rparr> else info)
         else if header_sanitized info = SYS_BASE m OR NACK m then
           (if payload_len_code = 0 then info\<lparr>header_valid := True\<rparr> else info)
         else if header_sanitized info = CMD_BASE m OR SELECT m then
           (if payload_len_code = 0
            then info\<lparr>header_valid := True, info_payload_length := payload_length h\<rparr>
            else info)
         else if header_sanitized info = CMD_BASE m OR WRITE m then
           (if payload_len_code < 6
            then info\<lparr>header_valid := True, info_payload_length := payload_length h\<rparr>
            else info)
         else info)"

subsection \<open>The parser\<close>

text \<open>
  The constructor leaves the buffer array uninitialised: its content is the argument.
\<close>

definition Parser_new :: "byte list \<Rightarrow> Parser" where
  "Parser_new buf =
     \<lparr>buffer = buf, message_payload_length = 0, message_pending_bytes = 0,
      current_state = STATE_START\<rparr>"

text \<open>
  The two inner \<^verbatim>\<open>switch\<close> statements of \<^verbatim>\<open>update\<close> have no \<^verbatim>\<open>default\<close> label: when no
  case matches (\<open>None\<close>) the result keeps the value it was initialised with.
\<close>

definition sys_switch :: "Magics \<Rightarrow> byte \<Rightarrow> ParseResult option" where
  "sys_switch m sub =
     (if sub = NACK m then Some RECEIVED_SYS_NACK
      else if sub = ACK m then Some RECEIVED_SYS_ACK
      else None)"

definition cmd_switch :: "Magics \<Rightarrow> byte \<Rightarrow> ParseResult option" where
  "cmd_switch m sub =
     (if sub = SELECT m then Some RECEIVED_CMD_SELECT
      else if sub = WRITE m then Some RECEIVED_CMD_WRITE
      else None)"

definition assign_res :: "ParseResult option \<Rightarrow> ParserReturn \<Rightarrow> ParserReturn" where
  "assign_res sw rtn = (case sw of Some r \<Rightarrow> rtn\<lparr>res := r\<rparr> | None \<Rightarrow> rtn)"

definition write_index :: "Parser \<Rightarrow> byte" where
  "write_index p = ((message_payload_length p + 0x01) - message_pending_bytes p) + 0x01"

text \<open>The last two statements of \<^verbatim>\<open>update\<close>: \<^verbatim>\<open>rtn.hdr = buffer[0]; return rtn;\<close>\<close>

definition return_hdr :: "ParserReturn \<Rightarrow> Parser \<Rightarrow> (ParserReturn \<times> Parser) option" where
  "return_hdr rtn p =
     (if 0 < BUFFER_LEN then Some (rtn\<lparr>hdr := buffer p ! 0\<rparr>, p) else None)"

text \<open>
  \<^verbatim>\<open>update\<close> switches over \<^verbatim>\<open>current_state\<close>; its two cases are \<open>update_header\<close>
  (\<^verbatim>\<open>State::WAIT_HEADER\<close>) and \<open>update_checksum\<close> (\<^verbatim>\<open>State::WAIT_CHECKSUM\<close>). Every
  index into the array of \<^verbatim>\<open>BUFFER_LEN\<close> bytes is checked; an index outside it gives
  \<open>None\<close>. The checksum is handed the first \<^verbatim>\<open>message_payload_length + 1\<close> bytes.
\<close>

definition update_header :: "Magics \<Rightarrow> byte \<Rightarrow> ParserReturn \<Rightarrow> Parser \<Rightarrow>
    (ParserReturn \<times> Parser) option" where
  "update_header m input rtn p =
     (let info = analyze_header m input in
      if 0 < BUFFER_LEN then
        (let p1 = p\<lparr>buffer := (buffer p)[0 := input]\<rparr> in
         if header_valid info then
           (if info_payload_length info > 0 then
              return_hdr (rtn\<lparr>res := INSUFFICIENT_DATA\<rparr>)
                (p1\<lparr>message_payload_length := info_payload_length info,
                    message_pending_bytes := info_payload_length info + 0x01,
                    current_state := next_state (current_state p1)\<rparr>)
            else
              return_hdr (assign_res (sys_switch m (header_sanitized info AND 0x07)) rtn) p1)
         else return_hdr (rtn\<lparr>res := RECEIVED_INVALID_HEADER\<rparr>) p1)
      else None)"

definition update_checksum :: "Magics \<Rightarrow> checksum \<Rightarrow> byte \<Rightarrow> ParserReturn \<Rightarrow> Parser \<Rightarrow>
    (ParserReturn \<times> Parser) option" where
  "update_checksum m fcs input rtn p =
     (let wi = unat (write_index p) in
      if wi < BUFFER_LEN then
        (let p1 = p\<lparr>buffer := (buffer p)[wi := input],
                     message_pending_bytes := message_pending_bytes p - 0x01\<rparr> in
         if message_pending_bytes p1 \<noteq> 0 then
           return_hdr (rtn\<lparr>res := INSUFFICIENT_DATA\<rparr>) p1
         else
           (let rtn1 = rtn\<lparr>len := message_payload_length p1\<rparr>;
                n = unat (message_payload_length p1) + 1
            in if n \<le> BUFFER_LEN then
                 (let rtn2 =
                    (if fcs (take n (buffer p1)) \<noteq> buffer p1 ! wi
                     then rtn1\<lparr>res := RECEIVED_CMD_INVALID_FCS\<rparr>
                     else assign_res (cmd_switch m (buffer p1 ! 0 AND 0x07)) rtn1)
                  in return_hdr rtn2 (p1\<lparr>current_state := next_state (current_state p1)\<rparr>))
               else None))
      else None)"

definition update :: "Magics \<Rightarrow> checksum \<Rightarrow> byte \<Rightarrow> Parser \<Rightarrow> (ParserReturn \<times> Parser) option" where
  "update m fcs input p =
     (let rtn = \<lparr>res = INSUFFICIENT_DATA, hdr = 0, len = 0\<rparr> in
      case current_state p of
        WAIT_HEADER \<Rightarrow> update_header m input rtn p
      | WAIT_CHECKSUM \<Rightarrow> update_checksum m fcs input rtn p)"

text \<open>\<^verbatim>\<open>data()\<close> is the pointer \<^verbatim>\<open>buffer + 1\<close>: the buffer from index 1 on.\<close>

definition data :: "Parser \<Rightarrow> byte list" where
  "data p = drop 1 (buffer p)"

definition reset_state :: "Parser \<Rightarrow> Parser" where
  "reset_state p = p\<lparr>current_state := STATE_START\<rparr>"

text \<open>
  A caller holds the non-const pointer of \<^verbatim>\<open>data()\<close> and may store through it into any
  of the \<^verbatim>\<open>BUFFER_LEN - 1\<close> bytes it covers.
\<close>

definition data_store :: "nat \<Rightarrow> byte \<Rightarrow> Parser \<Rightarrow> Parser" where
  "data_store i v p = p\<lparr>buffer := (buffer p)[i + 1 := v]\<rparr>"

subsection \<open>Driving the parser\<close>

text \<open>
  What a caller sees after a call: the returned structure and the payload view, the
  \<^verbatim>\<open>len\<close> bytes behind \<^verbatim>\<open>data()\<close>.
\<close>

definition payload_view :: "ParserReturn \<Rightarrow> Parser \<Rightarrow> byte list" where
  "payload_view r p = take (unat (len r)) (data p)"

text \<open>The loop of the callers: one \<^verbatim>\<open>update\<close> per byte, in order.\<close>

fun feed :: "Magics \<Rightarrow> checksum \<Rightarrow> Parser \<Rightarrow> byte list \<Rightarrow>
    ((ParserReturn \<times> byte list) list \<times> Parser) option" where
  "feed m fcs p [] = Some ([], p)"
| "feed m fcs p (b # bs) =
     (case update m fcs b p of
        None \<Rightarrow> None
      | Some (r, p') \<Rightarrow>
          (case feed m fcs p' bs of
             None \<Rightarrow> None
           | Some (rs, q) \<Rightarrow> Some ((r, payload_view r p') # rs, q)))"

text \<open>
  The states a parser object can be in: constructed (with any content of the
  uninitialised array), then driven by \<^verbatim>\<open>update\<close>, \<^verbatim>\<open>reset_state\<close> and stores through
  \<^verbatim>\<open>data()\<close>.
\<close>

inductive reachable :: "Magics \<Rightarrow> checksum \<Rightarrow> Parser \<Rightarrow> bool" for m fcs where
  constructed: "length buf = BUFFER_LEN \<Longrightarrow> reachable m fcs (Parser_new buf)"
| updated: "reachable m fcs p \<Longrightarrow> update m fcs b p = Some (r, p') \<Longrightarrow> reachable m fcs p'"
| reset: "reachable m fcs p \<Longrightarrow> reachable m fcs (reset_state p)"
| stored: "reachable m fcs p \<Longrightarrow> i < BUFFER_LEN - 1 \<Longrightarrow> reachable m fcs (data_store i v p)"

subsection \<open>The header catalog and well-formed frames\<close>

definition length_code :: "byte \<Rightarrow> byte" where
  "length_code b = drop_bit 3 b AND 0x07"

definition in_catalog :: "Magics \<Rightarrow> byte \<Rightarrow> bool" where
  "in_catalog m b =
     (let cls = b AND 0xc7; lc = length_code b in
      (cls = SYS_BASE m OR ACK m \<and> lc = 0) \<or>
      (cls = SYS_BASE m OR NACK m \<and> lc = 0) \<or>
      (cls = CMD_BASE m OR SELECT m \<and> lc = 0) \<or>
      (cls = CMD_BASE m OR WRITE m \<and> lc \<le> 5))"

text \<open>
  \<open>cmd_header m h N ok\<close>: \<open>h\<close> is the header of a CMD frame with \<open>N\<close> payload bytes, whose
  good reception is reported as \<open>ok\<close>.
\<close>

definition cmd_header :: "Magics \<Rightarrow> byte \<Rightarrow> nat \<Rightarrow> ParseResult \<Rightarrow> bool" where
  "cmd_header m h N ok =
     ((h = CMD_BASE m OR SELECT m \<and> N = 1 \<and> ok = RECEIVED_CMD_SELECT) \<or>
      (\<exists>k \<in> set [0..<6]. h = CMD_BASE m OR WRITE m OR push_bit 3 (of_nat k) \<and>
          N = 2 ^ k \<and> ok = RECEIVED_CMD_WRITE))"

text \<open>
  An instance of the collaborators, for evaluating the parser on concrete bytes: the
  message codes of the EV3 UART sensor protocol (SYS 0x00 with ACK 0x04 and NACK 0x02,
  CMD 0x40 with SELECT 0x03 and WRITE 0x04) and its checksum, 0xff XOR every byte.
\<close>

definition ev3_magics :: Magics where
  "ev3_magics =
     \<lparr>SYS_BASE = 0x00, ACK = 0x04, NACK = 0x02, CMD_BASE = 0x40, SELECT = 0x03, WRITE = 0x04\<rparr>"

definition ev3_checksum :: checksum where
  "ev3_checksum bs = fold (XOR) bs 0xff"

definition zero_buffer :: "byte list" where
  "zero_buffer = replicate 34 0"

text \<open>The state of that instance after the header 0x4c (CMD|WRITE, two payload bytes).\<close>

definition ev3_collecting :: Parser where
  "ev3_collecting =
     \<lparr>buffer = zero_buffer[0 := 0x4c], message_payload_length = 2,
      message_pending_bytes = 3, current_state = WAIT_CHECKSUM\<rparr>"

subsection \<open>The header field of the result\<close>

text \<open>
  The bytes of an input that \<^verbatim>\<open>update\<close> consumed as header candidates (in
  \<^verbatim>\<open>WAIT_HEADER\<close>), in order, and those among them that \<^verbatim>\<open>analyze_header\<close> accepted.
\<close>

fun header_candidates :: "Magics \<Rightarrow> checksum \<Rightarrow> Parser \<Rightarrow> byte list \<Rightarrow> byte list" where
  "header_candidates m fcs p [] = []"
| "header_candidates m fcs p (b # bs) =
     (case update m fcs b p of
        None \<Rightarrow> []
      | Some (r, p') \<Rightarrow>
          (if current_state p = WAIT_HEADER then [b] else []) @ header_candidates m fcs p' bs)"

definition accepted_headers :: "Magics \<Rightarrow> checksum \<Rightarrow> Parser \<Rightarrow> byte list \<Rightarrow> byte list" where
  "accepted_headers m fcs p bs =
     filter (\<lambda>h. header_valid (analyze_header m h)) (header_candidates m fcs p bs)"

text \<open>
  The reading of the header field as the specification words it: after the input \<open>bs\<close>
  the field of the last result is the most recently accepted header.
\<close>

definition hdr_is_last_accepted :: "Magics \<Rightarrow> checksum \<Rightarrow> Parser \<Rightarrow> byte list \<Rightarrow> bool" where
  "hdr_is_last_accepted m fcs p bs =
     (case feed m fcs p bs of
        None \<Rightarrow> False
      | Some (rs, q) \<Rightarrow>
          rs \<noteq> [] \<and> accepted_headers m fcs p bs \<noteq> [] \<and>
          hdr (fst (last rs)) = last (accepted_headers m fcs p bs))"

subsection \<open>Invariants\<close>

text \<open>
  While a frame is being collected, index 0 holds its accepted header, the stored
  payload length is the one the header encodes, and between 1 and that length + 1 bytes
  are pending.
\<close>

definition parser_inv :: "Magics \<Rightarrow> Parser \<Rightarrow> bool" where
  "parser_inv m p =
     (length (buffer p) = BUFFER_LEN \<and>
      (current_state p = WAIT_CHECKSUM \<longrightarrow>
         header_valid (analyze_header m (buffer p ! 0)) \<and>
         info_payload_length (analyze_header m (buffer p ! 0)) = message_payload_length p \<and>
         1 \<le> unat (message_payload_length p) \<and> unat (message_payload_length p) \<le> 32 \<and>
         1 \<le> unat (message_pending_bytes p) \<and>
         unat (message_pending_bytes p) \<le> unat (message_payload_length p) + 1))"

text \<open>
  \<open>collecting p h xs N\<close>: the header \<open>h\<close> of a frame with \<open>N\<close> payload bytes and the bytes
  \<open>xs\<close> after it have been consumed.
\<close>

definition collecting :: "Parser \<Rightarrow> byte \<Rightarrow> byte list \<Rightarrow> nat \<Rightarrow> bool" where
  "collecting p h xs N =
     (current_state p = WAIT_CHECKSUM \<and> length (buffer p) = BUFFER_LEN \<and>
      N \<le> 32 \<and> length xs \<le> N \<and>
      message_payload_length p = of_nat N \<and>
      message_pending_bytes p = of_nat (N + 1 - length xs) \<and>
      take (Suc (length xs)) (buffer p) = h # xs)"

section \<open>Properties\<close>

lemma two_pow_0: "two_pow 0 = 1"
  by (simp add: two_pow_def)

lemma word_lt6_cases: "(c::byte) < 6 \<Longrightarrow> c \<in> {0, 1, 2, 3, 4, 5}"
  by unat_arith

lemma le5_lt6: "((c::byte) \<le> 5) = (c < 6)"
  by unat_arith

lemma two_pow_small: "(c::byte) < 6 \<Longrightarrow> two_pow c \<in> {1, 2, 4, 8, 16, 32}"
  using word_lt6_cases[of c] by (auto simp: two_pow_def)

lemma analyze_header_valid_iff:
  "labels_distinct m \<Longrightarrow> header_valid (analyze_header m b) = in_catalog m b"
  by (auto simp: analyze_header_def in_catalog_def labels_distinct_def length_code_def
      Let_def le5_lt6)

lemma analyze_header_invalid:
  "\<not> in_catalog m b \<Longrightarrow> \<not> header_valid (analyze_header m b)"
  by (auto simp: analyze_header_def in_catalog_def length_code_def Let_def le5_lt6)

lemma analyze_header_sanitized: "header_sanitized (analyze_header m b) = b AND 0xc7"
  by (simp add: analyze_header_def Let_def)

lemma analyze_header_pl:
  "header_valid (analyze_header m b) \<Longrightarrow>
   info_payload_length (analyze_header m b) \<in> {0, 1, 2, 4, 8, 16, 32}"
  using two_pow_small[of "drop_bit 3 b AND 0x07"]
  by (auto simp: analyze_header_def Let_def payload_length_def two_pow_0 split: if_splits)

subsection \<open>Bit fields of a header byte\<close>

lemma base_bits: "(c::byte) AND 0x3f = 0 \<Longrightarrow> c = c AND 0xc0"
proof -
  assume a: "c AND 0x3f = 0"
  have "(0x3f::byte) OR 0xc0 = - 1" by simp
  then have "c = c AND (0x3f OR 0xc0)" by (simp only: and.right_neutral)
  also have "\<dots> = (c AND 0x3f) OR (c AND 0xc0)" by (simp only: bit.conj_disj_distrib)
  finally show ?thesis using a by simp
qed

lemma sub_bits: "(s::byte) AND 0xf8 = 0 \<Longrightarrow> s = s AND 0x07"
proof -
  assume a: "s AND 0xf8 = 0"
  have "(0xf8::byte) OR 0x07 = - 1" by simp
  then have "s = s AND (0xf8 OR 0x07)" by (simp only: and.right_neutral)
  also have "\<dots> = (s AND 0xf8) OR (s AND 0x07)" by (simp only: bit.conj_disj_distrib)
  finally show ?thesis using a by simp
qed

lemma header_fields:
  fixes c s :: byte
  assumes c: "c AND 0x3f = 0" and s: "s AND 0xf8 = 0" and k: "k \<in> {0, 8, 16, 24, 32, 40}"
  shows "(c OR s OR k) AND 0xc7 = c OR s" "(c OR s OR k) AND 0x07 = s"
    "drop_bit 3 (c OR s OR k) AND 0x07 = drop_bit 3 k"
proof -
  obtain c' s' where c': "c = c' AND 0xc0" and s': "s = s' AND 0x07"
    using base_bits[OF c] sub_bits[OF s] by blast
  show "(c OR s OR k) AND 0xc7 = c OR s"
    using k unfolding c' s' by (auto simp: bit.conj_disj_distrib2 and.assoc)
  show "(c OR s OR k) AND 0x07 = s"
    using k unfolding c' s' by (auto simp: bit.conj_disj_distrib2 and.assoc)
  show "drop_bit 3 (c OR s OR k) AND 0x07 = drop_bit 3 k"
    using k unfolding c' s' by (auto simp: bit.conj_disj_distrib2 and.assoc)
qed

subsection \<open>Single steps of the parser\<close>

lemma next_state_simps: "next_state WAIT_HEADER = WAIT_CHECKSUM" "next_state WAIT_CHECKSUM = WAIT_HEADER"
  by (simp_all add: next_state_def STATE_END_def STATE_START_def state_of_code_def)

lemma BUFFER_LEN_34: "BUFFER_LEN = 34"
  by (simp add: BUFFER_LEN_def BUFFER_MIN_def)

lemma update_header_valid_cmd:
  assumes "current_state p = WAIT_HEADER" "header_valid (analyze_header m h)"
    "info_payload_length (analyze_header m h) \<noteq> 0"
  shows "update m fcs h p =
     Some (\<lparr>res = INSUFFICIENT_DATA, hdr = (buffer p)[0 := h] ! 0, len = 0\<rparr>,
           p\<lparr>buffer := (buffer p)[0 := h],
              message_payload_length := info_payload_length (analyze_header m h),
              message_pending_bytes := info_payload_length (analyze_header m h) + 1,
              current_state := WAIT_CHECKSUM\<rparr>)"
  using assms
  by (simp add: update_def update_header_def return_hdr_def Let_def BUFFER_LEN_34 next_state_simps word_greater_zero_iff)

lemma update_header_valid_sys:
  assumes "current_state p = WAIT_HEADER" "header_valid (analyze_header m h)"
    "info_payload_length (analyze_header m h) = 0"
  shows "update m fcs h p =
     Some (assign_res (sys_switch m (h AND 0x07)) \<lparr>res = INSUFFICIENT_DATA, hdr = (buffer p)[0 := h] ! 0, len = 0\<rparr>,
           p\<lparr>buffer := (buffer p)[0 := h]\<rparr>)"
  using assms
  by (simp add: update_def update_header_def return_hdr_def Let_def BUFFER_LEN_34 analyze_header_sanitized and.assoc assign_res_def split: option.splits)

lemma update_header_invalid:
  assumes "current_state p = WAIT_HEADER" "\<not> header_valid (analyze_header m h)"
  shows "update m fcs h p =
     Some (\<lparr>res = RECEIVED_INVALID_HEADER, hdr = (buffer p)[0 := h] ! 0, len = 0\<rparr>,
           p\<lparr>buffer := (buffer p)[0 := h]\<rparr>)"
  using assms
  by (simp add: update_def update_header_def return_hdr_def Let_def BUFFER_LEN_34)

lemma update_checksum_more:
  assumes "current_state p = WAIT_CHECKSUM" "unat (write_index p) < BUFFER_LEN"
    "message_pending_bytes p \<noteq> 1"
  shows "update m fcs b p =
     Some (\<lparr>res = INSUFFICIENT_DATA, hdr = (buffer p)[unat (write_index p) := b] ! 0, len = 0\<rparr>,
           p\<lparr>buffer := (buffer p)[unat (write_index p) := b],
              message_pending_bytes := message_pending_bytes p - 1\<rparr>)"
  using assms
  by (simp add: update_def update_checksum_def return_hdr_def Let_def BUFFER_LEN_34)

lemma update_checksum_last:
  assumes "current_state p = WAIT_CHECKSUM" "unat (write_index p) < BUFFER_LEN"
    "message_pending_bytes p = 1" "unat (message_payload_length p) + 1 \<le> BUFFER_LEN"
  shows "update m fcs b p =
     (let buf = (buffer p)[unat (write_index p) := b];
          rtn = \<lparr>res = INSUFFICIENT_DATA, hdr = buf ! 0, len = message_payload_length p\<rparr> in
     Some (if fcs (take (unat (message_payload_length p) + 1) buf) \<noteq> buf ! unat (write_index p)
           then rtn\<lparr>res := RECEIVED_CMD_INVALID_FCS\<rparr>
           else assign_res (cmd_switch m (buf ! 0 AND 0x07)) rtn,
           p\<lparr>buffer := buf, message_pending_bytes := 0, current_state := WAIT_HEADER\<rparr>))"
  using assms
  by (simp add: update_def update_checksum_def return_hdr_def Let_def BUFFER_LEN_34 next_state_simps assign_res_def split: option.splits)

lemma collecting_write_index:
  assumes "collecting p h xs N"
  shows "write_index p = of_nat (Suc (length xs))" "unat (write_index p) = Suc (length xs)"
proof -
  from assms have le: "length xs \<le> N" "N \<le> 32"
    and pl: "message_payload_length p = of_nat N"
    and pe: "message_pending_bytes p = of_nat (N + 1 - length xs)"
    by (simp_all add: collecting_def)
  have "N + 1 = (N + 1 - length xs) + length xs"
    using le by simp
  then have "(of_nat (N + 1) :: byte) = of_nat ((N + 1 - length xs) + length xs)"
    by simp
  then have "(of_nat N + 1 :: byte) = of_nat (N + 1 - length xs) + of_nat (length xs)"
    by (simp only: of_nat_add of_nat_1)
  then show wi: "write_index p = of_nat (Suc (length xs))"
    by (simp add: write_index_def pl pe)
  show "unat (write_index p) = Suc (length xs)"
    unfolding wi using le by (simp add: unat_of_nat del: of_nat_Suc)
qed

lemma collecting_step:
  assumes c: "collecting p h xs N" and lt: "length xs < N"
  shows "\<exists>p'. update m fcs b p = Some (\<lparr>res = INSUFFICIENT_DATA, hdr = h, len = 0\<rparr>, p') \<and>
           buffer p' = (buffer p)[Suc (length xs) := b] \<and> collecting p' h (xs @ [b]) N"
proof -
  from c have st: "current_state p = WAIT_CHECKSUM" and len: "length (buffer p) = BUFFER_LEN"
    and le: "N \<le> 32"
    and pl: "message_payload_length p = of_nat N"
    and pe: "message_pending_bytes p = of_nat (N + 1 - length xs)"
    and tk: "take (Suc (length xs)) (buffer p) = h # xs"
    by (simp_all add: collecting_def)
  note wi = collecting_write_index(2)[OF c]
  have wib: "unat (write_index p) < BUFFER_LEN"
    using wi lt le by (simp add: BUFFER_LEN_34)
  have "unat (of_nat (N + 1 - length xs) :: byte) = N + 1 - length xs"
    using le by (simp add: unat_of_nat)
  then have "unat (message_pending_bytes p) \<noteq> unat (1::byte)"
    using lt unfolding pe by simp
  then have ne1: "message_pending_bytes p \<noteq> 1"
    by metis
  have h0: "buffer p ! 0 = h"
    using nth_take[of 0 "Suc (length xs)" "buffer p"] tk by simp
  have pe': "message_pending_bytes p - 1 = of_nat (N + 1 - length (xs @ [b]))"
    using lt unfolding pe by (simp add: Suc_diff_le)
  have tk': "take (Suc (length (xs @ [b]))) ((buffer p)[Suc (length xs) := b]) = h # xs @ [b]"
    using tk len lt le by (simp add: take_Suc_conv_app_nth[of "Suc (length xs)"] BUFFER_LEN_34)
  show ?thesis
    unfolding update_checksum_more[OF st wib ne1] wi
    using st len le lt pl pe' tk' h0 by (simp add: collecting_def)
qed


lemma collecting_last:
  assumes c: "collecting p h xs N" and eq: "length xs = N"
  shows "\<exists>p'. update m fcs b p =
           Some ((if fcs (h # xs) \<noteq> b
                  then \<lparr>res = RECEIVED_CMD_INVALID_FCS, hdr = h, len = of_nat N\<rparr>
                  else assign_res (cmd_switch m (h AND 0x07))
                         \<lparr>res = INSUFFICIENT_DATA, hdr = h, len = of_nat N\<rparr>), p') \<and>
           buffer p' = (buffer p)[Suc N := b] \<and> current_state p' = WAIT_HEADER \<and>
           take (N + 2) (buffer p') = h # xs @ [b]"
proof -
  from c have st: "current_state p = WAIT_CHECKSUM" and len: "length (buffer p) = BUFFER_LEN"
    and le: "N \<le> 32"
    and pl: "message_payload_length p = of_nat N"
    and pe: "message_pending_bytes p = of_nat (N + 1 - length xs)"
    and tk: "take (Suc (length xs)) (buffer p) = h # xs"
    by (simp_all add: collecting_def)
  have wi: "unat (write_index p) = Suc N"
    using collecting_write_index(2)[OF c] eq by simp
  have wib: "unat (write_index p) < BUFFER_LEN"
    using wi le by (simp add: BUFFER_LEN_34)
  have pe1: "message_pending_bytes p = 1"
    using pe eq by simp
  have un: "unat (message_payload_length p) = N"
    using le by (simp add: pl unat_of_nat)
  have nb: "unat (message_payload_length p) + 1 \<le> BUFFER_LEN"
    using un le by (simp add: BUFFER_LEN_34)
  have h0: "(buffer p)[Suc N := b] ! 0 = h"
    using nth_take[of 0 "Suc (length xs)" "buffer p"] tk by simp
  have tk1: "take (Suc N) ((buffer p)[Suc N := b]) = h # xs"
    using tk eq by simp
  have rd: "(buffer p)[Suc N := b] ! Suc N = b"
    using len le by (simp add: BUFFER_LEN_34)
  have tk2: "take (N + 2) ((buffer p)[Suc N := b]) = h # xs @ [b]"
    using tk1 rd len le by (simp add: take_Suc_conv_app_nth[of "Suc N"] BUFFER_LEN_34)
  show ?thesis
    unfolding update_checksum_last[OF st wib pe1 nb] Let_def wi un
    using h0 tk1 rd tk2 by (simp add: pl)
qed

lemma header_collecting:
  assumes st: "current_state p = WAIT_HEADER" and len: "length (buffer p) = BUFFER_LEN"
    and v: "header_valid (analyze_header m h)"
    and pl: "info_payload_length (analyze_header m h) = of_nat N" and N: "0 < N" "N \<le> 32"
  shows "\<exists>p'. update m fcs h p = Some (\<lparr>res = INSUFFICIENT_DATA, hdr = h, len = 0\<rparr>, p') \<and>
           collecting p' h [] N"
proof -
  have "unat (of_nat N :: byte) = N"
    using N by (simp add: unat_of_nat)
  then have nz: "info_payload_length (analyze_header m h) \<noteq> 0"
    unfolding pl using N by (metis unat_0 less_numeral_extra(3))
  have tk: "take (Suc 0) ((buffer p)[0 := h]) = [h]"
    using len by (cases "buffer p") (simp_all add: BUFFER_LEN_34)
  have h0: "(buffer p)[0 := h] ! 0 = h"
    using len by (simp add: BUFFER_LEN_34)
  show ?thesis
    unfolding update_header_valid_cmd[OF st v nz]
    using len N tk h0 by (simp add: collecting_def pl)
qed

lemma feed_append:
  "feed m fcs p (xs @ ys) =
     (case feed m fcs p xs of
        None \<Rightarrow> None
      | Some (rs, q) \<Rightarrow>
          (case feed m fcs q ys of None \<Rightarrow> None | Some (rs', q') \<Rightarrow> Some (rs @ rs', q')))"
  by (induction xs arbitrary: p) (auto split: option.splits)

lemma feed_collecting:
  "collecting p h xs N \<Longrightarrow> length xs + length ys \<le> N \<Longrightarrow>
   \<exists>p'. feed m fcs p ys =
           Some (replicate (length ys) (\<lparr>res = INSUFFICIENT_DATA, hdr = h, len = 0\<rparr>, []), p') \<and>
         collecting p' h (xs @ ys) N"
proof (induction ys arbitrary: p xs)
  case Nil
  then show ?case by simp
next
  case (Cons b ys)
  from Cons.prems have lt: "length xs < N" by simp
  from collecting_step[OF Cons.prems(1) lt, of m fcs b]
  obtain q where u: "update m fcs b p = Some (\<lparr>res = INSUFFICIENT_DATA, hdr = h, len = 0\<rparr>, q)"
    and c: "collecting q h (xs @ [b]) N" by blast
  from Cons.prems have "length (xs @ [b]) + length ys \<le> N" by simp
  from Cons.IH[OF c this]
  obtain p' where f: "feed m fcs q ys =
      Some (replicate (length ys) (\<lparr>res = INSUFFICIENT_DATA, hdr = h, len = 0\<rparr>, []), p')"
    and c': "collecting p' h ((xs @ [b]) @ ys) N" by blast
  show ?case using u f c' by (simp add: payload_view_def)
qed

subsection \<open>Header bytes\<close>

lemma res_assign_res_sys:
  "res (assign_res (sys_switch m s) \<lparr>res = INSUFFICIENT_DATA, hdr = x, len = y\<rparr>) \<noteq> RECEIVED_INVALID_HEADER"
  by (simp add: assign_res_def sys_switch_def)

text \<open>
  C1. In WAITING_FOR_HEADER, \<^verbatim>\<open>update(b)\<close> returns an outcome other than
  RECEIVED_INVALID_HEADER exactly when \<open>b\<close> is in the header catalog: SYS|ACK or SYS|NACK
  with length code 0, CMD|SELECT with length code 0, or CMD|WRITE with a length code
  from 0 to 5; every other byte yields RECEIVED_INVALID_HEADER.
\<close>

theorem header_catalog_exact:
  assumes "labels_distinct m" and "current_state p = WAIT_HEADER"
  shows "\<exists>r p'. update m fcs b p = Some (r, p') \<and>
           (res r \<noteq> RECEIVED_INVALID_HEADER \<longleftrightarrow> in_catalog m b)"
proof (cases "header_valid (analyze_header m b)")
  case False
  then show ?thesis
    using update_header_invalid[OF assms(2) False] analyze_header_valid_iff[OF assms(1), of b]
    by simp
next
  case True
  then have cat: "in_catalog m b"
    using analyze_header_valid_iff[OF assms(1), of b] by simp
  show ?thesis
  proof (cases "info_payload_length (analyze_header m b) = 0")
    case z: True
    show ?thesis
      using update_header_valid_sys[OF assms(2) True z] cat res_assign_res_sys by simp
  next
    case nz: False
    show ?thesis
      using update_header_valid_cmd[OF assms(2) True nz] cat by simp
  qed
qed

lemma ev3_labels_distinct: "labels_distinct ev3_magics"
  by (simp add: labels_distinct_def ev3_magics_def)

lemma ev3_layout_ok: "layout_ok ev3_magics"
  by (simp add: layout_ok_def ev3_magics_def)

lemma ev3_magics_ok: "magics_ok ev3_magics"
  by (simp add: magics_ok_def ev3_layout_ok ev3_labels_distinct)

lemma Parser_new_state: "current_state (Parser_new buf) = WAIT_HEADER"
  by (simp add: Parser_new_def STATE_START_def)

theorem header_catalog_exact_witness:
  "labels_distinct ev3_magics \<and> current_state (Parser_new zero_buffer) = WAIT_HEADER \<and>
   in_catalog ev3_magics 0x4c \<and>
   (\<exists>r p'. update ev3_magics ev3_checksum 0x4c (Parser_new zero_buffer) = Some (r, p') \<and>
      res r \<noteq> RECEIVED_INVALID_HEADER)"
proof -
  have c: "in_catalog ev3_magics 0x4c"
    by (simp add: in_catalog_def ev3_magics_def length_code_def)
  show ?thesis
    using header_catalog_exact[where m = ev3_magics and p = "Parser_new zero_buffer"
        and fcs = ev3_checksum and b = "0x4c"] c ev3_labels_distinct Parser_new_state
    by simp
qed

text \<open>
  C5. After a call of \<^verbatim>\<open>update\<close> that returns a terminal outcome (anything but
  INSUFFICIENT_DATA) the parser is in WAITING_FOR_HEADER, and every byte outside the
  header catalog fed next yields RECEIVED_INVALID_HEADER.
\<close>

theorem terminal_outcome_ready:
  assumes u: "update m fcs b p = Some (r, p')" and t: "res r \<noteq> INSUFFICIENT_DATA"
  shows "current_state p' = WAIT_HEADER \<and>
         (\<forall>b'. \<not> in_catalog m b' \<longrightarrow>
            (\<exists>r' p''. update m fcs b' p' = Some (r', p'') \<and> res r' = RECEIVED_INVALID_HEADER))"
proof -
  have st: "current_state p' = WAIT_HEADER"
  proof (cases "current_state p")
    case WAIT_HEADER
    then show ?thesis
      using u t
      by (auto simp: update_def update_header_def return_hdr_def Let_def split: if_splits)
  next
    case WAIT_CHECKSUM
    then show ?thesis
      using u t
      by (auto simp: update_def update_checksum_def return_hdr_def Let_def next_state_simps
          split: if_splits)
  qed
  show ?thesis
    using st update_header_invalid[OF st analyze_header_invalid, of m _ fcs] by simp
qed


lemmas eval_defs = update_def update_header_def update_checksum_def return_hdr_def
  analyze_header_def payload_length_def two_pow_def sys_switch_def cmd_switch_def assign_res_def
  write_index_def ev3_magics_def ev3_checksum_def zero_buffer_def Parser_new_def
  BUFFER_LEN_def BUFFER_MIN_def STATE_START_def next_state_simps Let_def

theorem terminal_outcome_ready_witness:
  "update ev3_magics ev3_checksum 0x04 (Parser_new zero_buffer) =
      Some (\<lparr>res = RECEIVED_SYS_ACK, hdr = 0x04, len = 0\<rparr>, Parser_new (zero_buffer[0 := 0x04])) \<and>
   res \<lparr>res = RECEIVED_SYS_ACK, hdr = 0x04, len = 0\<rparr> \<noteq> INSUFFICIENT_DATA \<and>
   \<not> in_catalog ev3_magics 0xc0 \<and>
   current_state (Parser_new (zero_buffer[0 := 0x04])) = WAIT_HEADER \<and>
   (\<exists>r' p''. update ev3_magics ev3_checksum 0xc0 (Parser_new (zero_buffer[0 := 0x04])) = Some (r', p'') \<and>
       res r' = RECEIVED_INVALID_HEADER)"
proof -
  have u: "update ev3_magics ev3_checksum 0x04 (Parser_new zero_buffer) =
      Some (\<lparr>res = RECEIVED_SYS_ACK, hdr = 0x04, len = 0\<rparr>, Parser_new (zero_buffer[0 := 0x04]))"
    by (simp add: eval_defs)
  have t: "res \<lparr>res = RECEIVED_SYS_ACK, hdr = 0x04, len = 0\<rparr> \<noteq> INSUFFICIENT_DATA"
    by simp
  have n: "\<not> in_catalog ev3_magics 0xc0"
    by (simp add: in_catalog_def ev3_magics_def length_code_def)
  show ?thesis
    using terminal_outcome_ready[OF u t] u t n by blast
qed

subsection \<open>Whole frames\<close>

lemma analyze_header_select:
  assumes d: "labels_distinct m" and s: "h AND 0xc7 = CMD_BASE m OR SELECT m"
    and k: "drop_bit 3 h AND 0x07 = 0"
  shows "analyze_header m h =
     \<lparr>header_valid = True, header_sanitized = CMD_BASE m OR SELECT m, info_payload_length = 1\<rparr>"
  using d s k
  by (auto simp add: analyze_header_def Let_def labels_distinct_def payload_length_def two_pow_0)

lemma analyze_header_write:
  assumes d: "labels_distinct m" and s: "h AND 0xc7 = CMD_BASE m OR WRITE m"
    and k: "drop_bit 3 h AND 0x07 = c" "c < 6"
  shows "analyze_header m h =
     \<lparr>header_valid = True, header_sanitized = CMD_BASE m OR WRITE m, info_payload_length = two_pow c\<rparr>"
  using d s k by (auto simp add: analyze_header_def labels_distinct_def payload_length_def)

lemma cmd_header_cases:
  assumes "cmd_header m h N ok"
  obtains "h = CMD_BASE m OR SELECT m OR 0" "N = 1" "ok = RECEIVED_CMD_SELECT"
  | k where "k < 6" "h = CMD_BASE m OR WRITE m OR push_bit 3 (of_nat k)" "N = 2 ^ k"
      "ok = RECEIVED_CMD_WRITE"
  using assms by (auto simp: cmd_header_def)

lemma lt6_cases: "(k::nat) < 6 \<Longrightarrow> k \<in> {0, 1, 2, 3, 4, 5}"
  by auto

lemma cmd_header_valid:
  assumes m: "magics_ok m" and h: "cmd_header m h N ok"
  shows "header_valid (analyze_header m h) \<and>
         info_payload_length (analyze_header m h) = of_nat N \<and> 0 < N \<and> N \<le> 32 \<and>
         cmd_switch m (h AND 0x07) = Some ok"
proof -
  from m have d: "labels_distinct m" and c: "CMD_BASE m AND 0x3f = 0"
    and s: "SELECT m AND 0xf8 = 0" and w: "WRITE m AND 0xf8 = 0"
    by (simp_all add: magics_ok_def layout_ok_def)
  from d have ne: "SELECT m \<noteq> WRITE m"
    by (auto simp: labels_distinct_def)
  from h show ?thesis
  proof (cases rule: cmd_header_cases)
    case 1
    have f: "h AND 0xc7 = CMD_BASE m OR SELECT m" "h AND 0x07 = SELECT m"
      "drop_bit 3 h AND 0x07 = 0"
      using header_fields[OF c s, of 0] unfolding 1(1) by simp_all
    show ?thesis
      using analyze_header_select[OF d f(1) f(3)] f(2) 1 by (simp add: cmd_switch_def)
  next
    case (2 k)
    have kk: "push_bit 3 (of_nat k :: byte) \<in> {0, 8, 16, 24, 32, 40}"
      using lt6_cases[OF 2(1)] by auto
    have dk: "drop_bit 3 (push_bit 3 (of_nat k :: byte)) = of_nat k"
      using lt6_cases[OF 2(1)] by auto
    have k6: "(of_nat k :: byte) < 6"
      using lt6_cases[OF 2(1)] by auto
    have tp: "two_pow (of_nat k) = of_nat (2 ^ k)"
      using lt6_cases[OF 2(1)] by (auto simp: two_pow_def)
    have f: "h AND 0xc7 = CMD_BASE m OR WRITE m" "h AND 0x07 = WRITE m"
      "drop_bit 3 h AND 0x07 = of_nat k"
      using header_fields[OF c w kk] dk unfolding 2(2) by simp_all
    have N: "0 < N" "N \<le> 32"
      using lt6_cases[OF 2(1)] 2(3) by auto
    show ?thesis
      using analyze_header_write[OF d f(1) f(3) k6] f(2) 2 ne tp N by (simp add: cmd_switch_def)
  qed
qed

lemma feed_cmd_frame:
  assumes m: "magics_ok m" and st: "current_state p = WAIT_HEADER"
    and len: "length (buffer p) = BUFFER_LEN" and h: "cmd_header m h (length payload) ok"
  shows "\<exists>p'. feed m fcs p (h # payload @ [c]) =
           Some (replicate (Suc (length payload)) (\<lparr>res = INSUFFICIENT_DATA, hdr = h, len = 0\<rparr>, []) @
                 [(\<lparr>res = (if fcs (h # payload) = c then ok else RECEIVED_CMD_INVALID_FCS),
                    hdr = h, len = of_nat (length payload)\<rparr>, payload)], p') \<and>
         current_state p' = WAIT_HEADER \<and> length (buffer p') = BUFFER_LEN \<and>
         take (length payload + 2) (buffer p') = h # payload @ [c]"
proof -
  let ?N = "length payload"
  let ?i = "\<lparr>res = INSUFFICIENT_DATA, hdr = h, len = 0\<rparr>"
  note hv = cmd_header_valid[OF m h]
  from hv have N: "0 < ?N" "?N \<le> 32" by simp_all
  from header_collecting[OF st len, of m h ?N fcs] hv
  obtain p1 where u1: "update m fcs h p = Some (?i, p1)" and c1: "collecting p1 h [] ?N"
    by blast
  from feed_collecting[OF c1, of payload m fcs]
  obtain p2 where f2: "feed m fcs p1 payload = Some (replicate ?N (?i, []), p2)"
    and c2: "collecting p2 h payload ?N" by auto
  from collecting_last[OF c2 refl, of m fcs c]
  obtain p3 where u3: "update m fcs c p2 =
           Some ((if fcs (h # payload) \<noteq> c
                  then \<lparr>res = RECEIVED_CMD_INVALID_FCS, hdr = h, len = of_nat ?N\<rparr>
                  else assign_res (cmd_switch m (h AND 0x07))
                         \<lparr>res = INSUFFICIENT_DATA, hdr = h, len = of_nat ?N\<rparr>), p3)"
    and b3: "buffer p3 = (buffer p2)[Suc ?N := c]" and s3: "current_state p3 = WAIT_HEADER"
    and t3: "take (?N + 2) (buffer p3) = h # payload @ [c]" by blast
  have l3: "length (buffer p3) = BUFFER_LEN"
    using c2 b3 by (simp add: collecting_def)
  have "take ?N (drop 1 (take (?N + 2) (buffer p3))) = payload"
    unfolding t3 by simp
  then have view: "take ?N (drop 1 (buffer p3)) = payload"
    by (simp add: drop_take)
  have un: "unat (of_nat ?N :: byte) = ?N"
    using N by (simp add: unat_of_nat)
  have sw: "cmd_switch m (h AND 0x07) = Some ok" using hv by simp
  have f3: "feed m fcs p2 [c] = Some ([(\<lparr>res = (if fcs (h # payload) = c then ok else RECEIVED_CMD_INVALID_FCS),
                    hdr = h, len = of_nat ?N\<rparr>, payload)], p3)"
    using u3 view un sw by (simp add: payload_view_def data_def assign_res_def)
  have "feed m fcs p1 (payload @ [c]) = Some (replicate ?N (?i, []) @ [(\<lparr>res = (if fcs (h # payload) = c then ok else RECEIVED_CMD_INVALID_FCS),
                    hdr = h, len = of_nat ?N\<rparr>, payload)], p3)"
    unfolding feed_append f2 using f3 by simp
  then show ?thesis
    using u1 s3 l3 t3 by (simp add: payload_view_def)
qed

lemma lc_bits: "(b::byte) AND 0x38 = push_bit 3 (drop_bit 3 b AND 0x07)"
proof (rule bit_word_eqI)
  fix pos :: nat
  assume "pos < LENGTH(8)"
  then have "pos \<in> {0, 1, 2, 3, 4, 5, 6, 7}"
    by auto
  then show "bit (b AND 0x38) pos = bit (push_bit 3 (drop_bit 3 b AND 0x07)) pos"
    by (auto simp: bit_simps)
qed

lemma lc_zero_sanitized: "drop_bit 3 (b::byte) AND 0x07 = 0 \<Longrightarrow> b AND 0xc7 = b"
proof -
  assume a: "drop_bit 3 b AND 0x07 = 0"
  have z: "b AND 0x38 = 0" unfolding lc_bits using a by simp
  have "(0xc7::byte) OR 0x38 = - 1" by simp
  then have "b = b AND (0xc7 OR 0x38)" by (simp only: and.right_neutral)
  also have "\<dots> = (b AND 0xc7) OR (b AND 0x38)" by (simp only: bit.conj_disj_distrib)
  finally show ?thesis using z by simp
qed


lemma Parser_new_length: "length (buffer (Parser_new buf)) = length buf"
  by (simp add: Parser_new_def)

lemma zero_buffer_length: "length zero_buffer = BUFFER_LEN"
  by (simp add: zero_buffer_def BUFFER_LEN_34)

lemma ev3_write_header: "cmd_header ev3_magics 0x4c (length [0x10, 0x20 :: byte]) RECEIVED_CMD_WRITE"
  unfolding cmd_header_def
  by (rule disjI2, rule bexI[of _ 1]) (simp_all add: ev3_magics_def)

text \<open>
  C2. A well-formed CMD frame fed byte by byte from WAITING_FOR_HEADER (a CMD|SELECT
  header with 1 payload byte, or a CMD|WRITE header with length code \<open>k\<close> from 0 to 5 and
  \<open>2 ^ k\<close> payload bytes, then the correct checksum byte): \<^verbatim>\<open>update\<close> returns
  INSUFFICIENT_DATA for every byte but the last, and for the last RECEIVED_CMD_SELECT
  (resp. RECEIVED_CMD_WRITE) with \<^verbatim>\<open>len\<close> the payload length and the payload view equal to
  the payload sent.
\<close>

theorem cmd_frame_received:
  assumes "magics_ok m" and "current_state p = WAIT_HEADER"
    and "length (buffer p) = BUFFER_LEN" and "cmd_header m h (length payload) ok"
  shows "\<exists>p'. feed m fcs p (h # payload @ [fcs (h # payload)]) =
           Some (replicate (Suc (length payload))
                   (\<lparr>res = INSUFFICIENT_DATA, hdr = h, len = 0\<rparr>, []) @
                 [(\<lparr>res = ok, hdr = h, len = of_nat (length payload)\<rparr>, payload)], p')"
  using feed_cmd_frame[OF assms, of fcs "fcs (h # payload)"] by auto

theorem cmd_frame_received_witness:
  "magics_ok ev3_magics \<and> current_state (Parser_new zero_buffer) = WAIT_HEADER \<and>
   length (buffer (Parser_new zero_buffer)) = BUFFER_LEN \<and>
   cmd_header ev3_magics 0x4c (length [0x10, 0x20 :: byte]) RECEIVED_CMD_WRITE \<and>
   (\<exists>p'. feed ev3_magics ev3_checksum (Parser_new zero_buffer) [0x4c, 0x10, 0x20, 0x83] =
      Some ([(\<lparr>res = INSUFFICIENT_DATA, hdr = 0x4c, len = 0\<rparr>, []),
             (\<lparr>res = INSUFFICIENT_DATA, hdr = 0x4c, len = 0\<rparr>, []),
             (\<lparr>res = INSUFFICIENT_DATA, hdr = 0x4c, len = 0\<rparr>, []),
             (\<lparr>res = RECEIVED_CMD_WRITE, hdr = 0x4c, len = 2\<rparr>, [0x10, 0x20])], p'))"
proof -
  have l: "length (buffer (Parser_new zero_buffer)) = BUFFER_LEN"
    by (simp add: Parser_new_length zero_buffer_length)
  have e: "ev3_checksum [0x4c, 0x10, 0x20] = 0x83"
    by (simp add: ev3_checksum_def)
  have "\<exists>p'. feed ev3_magics ev3_checksum (Parser_new zero_buffer) [0x4c, 0x10, 0x20, 0x83] =
      Some ([(\<lparr>res = INSUFFICIENT_DATA, hdr = 0x4c, len = 0\<rparr>, []),
             (\<lparr>res = INSUFFICIENT_DATA, hdr = 0x4c, len = 0\<rparr>, []),
             (\<lparr>res = INSUFFICIENT_DATA, hdr = 0x4c, len = 0\<rparr>, []),
             (\<lparr>res = RECEIVED_CMD_WRITE, hdr = 0x4c, len = 2\<rparr>, [0x10, 0x20])], p')"
    using cmd_frame_received[OF ev3_magics_ok Parser_new_state l ev3_write_header,
        of ev3_checksum] e
    by (simp add: numeral_2_eq_2 numeral_3_eq_3)
  then show ?thesis
    using ev3_magics_ok Parser_new_state l ev3_write_header by blast
qed

text \<open>
  C3. Replacing only the checksum byte of a well-formed CMD frame by any other byte
  changes the outcome of the final call from RECEIVED_CMD_SELECT / RECEIVED_CMD_WRITE
  to RECEIVED_CMD_INVALID_FCS; \<^verbatim>\<open>len\<close> and the payload view are as in the uncorrupted run.
\<close>

theorem cmd_frame_bad_fcs:
  assumes "magics_ok m" and "current_state p = WAIT_HEADER"
    and "length (buffer p) = BUFFER_LEN" and "cmd_header m h (length payload) ok"
    and "c \<noteq> fcs (h # payload)"
  shows "\<exists>p' q'.
           feed m fcs p (h # payload @ [fcs (h # payload)]) =
             Some (replicate (Suc (length payload))
                     (\<lparr>res = INSUFFICIENT_DATA, hdr = h, len = 0\<rparr>, []) @
                   [(\<lparr>res = ok, hdr = h, len = of_nat (length payload)\<rparr>, payload)], p') \<and>
           feed m fcs p (h # payload @ [c]) =
             Some (replicate (Suc (length payload))
                     (\<lparr>res = INSUFFICIENT_DATA, hdr = h, len = 0\<rparr>, []) @
                   [(\<lparr>res = RECEIVED_CMD_INVALID_FCS, hdr = h,
                      len = of_nat (length payload)\<rparr>, payload)], q')"
  using feed_cmd_frame[OF assms(1-4), of fcs "fcs (h # payload)"]
    feed_cmd_frame[OF assms(1-4), of fcs c] assms(5) by auto

theorem cmd_frame_bad_fcs_witness:
  "magics_ok ev3_magics \<and> current_state (Parser_new zero_buffer) = WAIT_HEADER \<and>
   length (buffer (Parser_new zero_buffer)) = BUFFER_LEN \<and>
   cmd_header ev3_magics 0x4c (length [0x10, 0x20 :: byte]) RECEIVED_CMD_WRITE \<and>
   0x84 \<noteq> ev3_checksum [0x4c, 0x10, 0x20] \<and>
   (\<exists>q'. feed ev3_magics ev3_checksum (Parser_new zero_buffer) [0x4c, 0x10, 0x20, 0x84] =
      Some ([(\<lparr>res = INSUFFICIENT_DATA, hdr = 0x4c, len = 0\<rparr>, []),
             (\<lparr>res = INSUFFICIENT_DATA, hdr = 0x4c, len = 0\<rparr>, []),
             (\<lparr>res = INSUFFICIENT_DATA, hdr = 0x4c, len = 0\<rparr>, []),
             (\<lparr>res = RECEIVED_CMD_INVALID_FCS, hdr = 0x4c, len = 2\<rparr>, [0x10, 0x20])], q'))"
proof -
  have l: "length (buffer (Parser_new zero_buffer)) = BUFFER_LEN"
    by (simp add: Parser_new_length zero_buffer_length)
  have e: "0x84 \<noteq> ev3_checksum [0x4c, 0x10, 0x20]"
    by (simp add: ev3_checksum_def)
  have "\<exists>q'. feed ev3_magics ev3_checksum (Parser_new zero_buffer) [0x4c, 0x10, 0x20, 0x84] =
      Some ([(\<lparr>res = INSUFFICIENT_DATA, hdr = 0x4c, len = 0\<rparr>, []),
             (\<lparr>res = INSUFFICIENT_DATA, hdr = 0x4c, len = 0\<rparr>, []),
             (\<lparr>res = INSUFFICIENT_DATA, hdr = 0x4c, len = 0\<rparr>, []),
             (\<lparr>res = RECEIVED_CMD_INVALID_FCS, hdr = 0x4c, len = 2\<rparr>, [0x10, 0x20])], q')"
    using cmd_frame_bad_fcs[where fcs = ev3_checksum,
        OF ev3_magics_ok Parser_new_state l ev3_write_header e]
    by (simp add: numeral_2_eq_2 numeral_3_eq_3)
  then show ?thesis
    using ev3_magics_ok Parser_new_state l ev3_write_header e by blast
qed

lemma res_assign_res_cmd:
  "res (assign_res (cmd_switch m s) \<lparr>res = INSUFFICIENT_DATA, hdr = x, len = y\<rparr>)
     \<noteq> RECEIVED_CMD_INVALID_FCS"
  by (simp add: assign_res_def cmd_switch_def)

lemma accepted_length_bounds:
  assumes "header_valid (analyze_header m h)"
  shows "unat (info_payload_length (analyze_header m h)) \<le> 32"
  using analyze_header_pl[OF assms] by auto

lemma take_frame: "length xs = N \<Longrightarrow> take (N + 1) (h # xs @ [b]) = h # xs"
  by simp

lemma nth_frame: "length xs = N \<Longrightarrow> (h # xs @ [b]) ! (N + 1) = b"
  by (simp add: nth_append)

text \<open>
  C4. After a CMD header with payload length \<open>N\<close> has been accepted, the \<open>i\<close>-th byte
  consumed after it (\<open>i\<close> from 1 to \<open>N + 1\<close>) is written at buffer index \<open>i\<close>: the
  payload contiguous from index 1, the checksum byte at index \<open>N + 1\<close>. On the final
  byte the checksum is computed over the \<open>N + 1\<close> bytes at indices 0 to \<open>N\<close> and compared
  with the byte at index \<open>N + 1\<close>.
\<close>

theorem payload_written_in_order:
  assumes st: "current_state p = WAIT_HEADER" and len: "length (buffer p) = BUFFER_LEN"
    and v: "header_valid (analyze_header m h)"
    and N: "unat (info_payload_length (analyze_header m h)) = N" "0 < N"
    and bs: "length bs = N + 1" and i: "1 \<le> i" "i \<le> N + 1"
  shows "\<exists>rs q r q'.
           feed m fcs p (h # take (i - 1) bs) = Some (rs, q) \<and>
           current_state q = WAIT_CHECKSUM \<and> unat (write_index q) = i \<and>
           update m fcs (bs ! (i - 1)) q = Some (r, q') \<and>
           buffer q' = (buffer q)[i := bs ! (i - 1)] \<and>
           take (i + 1) (buffer q') = h # take i bs \<and>
           (i \<le> N \<longrightarrow> res r = INSUFFICIENT_DATA) \<and>
           (i = N + 1 \<longrightarrow>
              (res r = RECEIVED_CMD_INVALID_FCS \<longleftrightarrow>
                 fcs (take (N + 1) (buffer q')) \<noteq> buffer q' ! (N + 1)))"
proof -
  let ?xs = "take (i - 1) bs"
  let ?b = "bs ! (i - 1)"
  let ?i = "\<lparr>res = INSUFFICIENT_DATA, hdr = h, len = 0\<rparr>"
  have N32: "N \<le> 32" using accepted_length_bounds[OF v] N by simp
  have pl: "info_payload_length (analyze_header m h) = of_nat N"
    using N(1)[symmetric] by simp
  have lx: "length ?xs = i - 1" using bs i by simp
  have tk: "?xs @ [?b] = take i bs"
    using bs i take_Suc_conv_app_nth[of "i - 1" bs] by simp
  from header_collecting[OF st len v pl N(2) N32, of fcs]
  obtain p1 where u1: "update m fcs h p = Some (?i, p1)" and c1: "collecting p1 h [] N"
    by blast
  have "length ([]::byte list) + length ?xs \<le> N" using lx i by simp
  from feed_collecting[OF c1 this, of m fcs]
  obtain q where f: "feed m fcs p1 ?xs = Some (replicate (length ?xs) (?i, []), q)"
    and c: "collecting q h ?xs N" by (simp only: append_Nil) blast
  have fq: "feed m fcs p (h # ?xs) = Some ((?i, []) # replicate (length ?xs) (?i, []), q)"
    using u1 f by (simp add: payload_view_def)
  have sq: "current_state q = WAIT_CHECKSUM" using c by (simp add: collecting_def)
  have wi: "unat (write_index q) = i"
    using collecting_write_index(2)[OF c] lx i by simp
  show ?thesis
  proof (cases "i \<le> N")
    case True
    then have lt: "length ?xs < N" using lx i by simp
    from collecting_step[OF c lt, of m fcs ?b]
    obtain q' where u: "update m fcs ?b q = Some (?i, q')"
      and b: "buffer q' = (buffer q)[Suc (length ?xs) := ?b]"
      and c': "collecting q' h (?xs @ [?b]) N" by blast
    have "take (Suc (length (?xs @ [?b]))) (buffer q') = h # ?xs @ [?b]"
      using c' by (simp add: collecting_def)
    then have t: "take (i + 1) (buffer q') = h # take i bs"
      unfolding tk using bs i by simp
    show ?thesis
      using fq sq wi u b t True lx i by simp
  next
    case False
    then have iN: "i = N + 1" using i by simp
    then have eq: "length ?xs = N" using lx by simp
    from collecting_last[OF c eq, of m fcs ?b]
    obtain q' where u: "update m fcs ?b q =
           Some ((if fcs (h # ?xs) \<noteq> ?b
                  then \<lparr>res = RECEIVED_CMD_INVALID_FCS, hdr = h, len = of_nat N\<rparr>
                  else assign_res (cmd_switch m (h AND 0x07))
                         \<lparr>res = INSUFFICIENT_DATA, hdr = h, len = of_nat N\<rparr>), q')"
      and b: "buffer q' = (buffer q)[Suc N := ?b]"
      and t2: "take (N + 2) (buffer q') = h # ?xs @ [?b]" by blast
    have t: "take (i + 1) (buffer q') = h # take i bs"
      using t2 tk iN by simp
    have "take (N + 1) (h # ?xs @ [?b]) = h # ?xs"
      by (rule take_frame[OF eq])
    then have "take (N + 1) (take (N + 2) (buffer q')) = h # ?xs"
      unfolding t2 .
    then have t1: "take (N + 1) (buffer q') = h # ?xs" by simp
    have "(h # ?xs @ [?b]) ! (N + 1) = ?b"
      by (rule nth_frame[OF eq])
    then have "take (N + 2) (buffer q') ! (N + 1) = ?b"
      unfolding t2 .
    then have rd: "buffer q' ! (N + 1) = ?b" by simp
    show ?thesis
      using fq sq wi u b t iN t1 rd res_assign_res_cmd by auto
  qed
qed


lemma ev3_write_header_valid: "header_valid (analyze_header ev3_magics 0x4c)"
  by (simp add: analyze_header_def ev3_magics_def)

lemma ev3_write_header_length:
  "unat (info_payload_length (analyze_header ev3_magics 0x4c)) = 2"
  by (simp add: analyze_header_def ev3_magics_def payload_length_def two_pow_def)

theorem payload_written_in_order_witness:
  "current_state (Parser_new zero_buffer) = WAIT_HEADER \<and>
   length (buffer (Parser_new zero_buffer)) = BUFFER_LEN \<and>
   header_valid (analyze_header ev3_magics 0x4c) \<and>
   unat (info_payload_length (analyze_header ev3_magics 0x4c)) = 2 \<and>
   (\<exists>rs q r q'.
      feed ev3_magics ev3_checksum (Parser_new zero_buffer) [0x4c, 0x10, 0x20] = Some (rs, q) \<and>
      current_state q = WAIT_CHECKSUM \<and> unat (write_index q) = 3 \<and>
      update ev3_magics ev3_checksum 0x83 q = Some (r, q') \<and>
      buffer q' = (buffer q)[3 := 0x83] \<and>
      take 4 (buffer q') = [0x4c, 0x10, 0x20, 0x83] \<and>
      (res r = RECEIVED_CMD_INVALID_FCS \<longleftrightarrow>
         ev3_checksum (take 3 (buffer q')) \<noteq> buffer q' ! 3))"
proof -
  have l: "length (buffer (Parser_new zero_buffer)) = BUFFER_LEN"
    by (simp add: Parser_new_length zero_buffer_length)
  have b: "length [0x10, 0x20, 0x83 :: byte] = 2 + 1" by simp
  have "\<exists>rs q r q'.
      feed ev3_magics ev3_checksum (Parser_new zero_buffer) [0x4c, 0x10, 0x20] = Some (rs, q) \<and>
      current_state q = WAIT_CHECKSUM \<and> unat (write_index q) = 3 \<and>
      update ev3_magics ev3_checksum 0x83 q = Some (r, q') \<and>
      buffer q' = (buffer q)[3 := 0x83] \<and>
      take 4 (buffer q') = [0x4c, 0x10, 0x20, 0x83] \<and>
      (res r = RECEIVED_CMD_INVALID_FCS \<longleftrightarrow>
         ev3_checksum (take 3 (buffer q')) \<noteq> buffer q' ! 3)"
    using payload_written_in_order[OF Parser_new_state l ev3_write_header_valid
        ev3_write_header_length _ b, of 3 ev3_checksum]
    by (simp add: eval_nat_numeral)
  then show ?thesis
    using Parser_new_state l ev3_write_header_valid ev3_write_header_length by blast
qed

lemma sys_header_result:
  assumes m: "magics_ok m" and st: "current_state p = WAIT_HEADER"
    and len: "length (buffer p) = BUFFER_LEN"
    and v: "header_valid (analyze_header m b)"
    and z: "info_payload_length (analyze_header m b) = 0"
  shows "(b = SYS_BASE m OR ACK m \<and>
          update m fcs b p =
            Some (\<lparr>res = RECEIVED_SYS_ACK, hdr = b, len = 0\<rparr>,
                  p\<lparr>buffer := (buffer p)[0 := b]\<rparr>)) \<or>
         (b = SYS_BASE m OR NACK m \<and>
          update m fcs b p =
            Some (\<lparr>res = RECEIVED_SYS_NACK, hdr = b, len = 0\<rparr>,
                  p\<lparr>buffer := (buffer p)[0 := b]\<rparr>))"
proof -
  from m have d: "labels_distinct m" and c: "SYS_BASE m AND 0x3f = 0"
    and a: "ACK m AND 0xf8 = 0" and n: "NACK m AND 0xf8 = 0"
    by (simp_all add: magics_ok_def layout_ok_def)
  from d have ne: "ACK m \<noteq> NACK m"
    by (auto simp: labels_distinct_def)
  have tp: "\<And>c. c < 6 \<Longrightarrow> two_pow c \<noteq> 0"
    using two_pow_small by force
  from v z have cls: "b AND 0xc7 = SYS_BASE m OR ACK m \<or> b AND 0xc7 = SYS_BASE m OR NACK m"
    and lc: "drop_bit 3 b AND 0x07 = 0"
    using tp[of "drop_bit 3 b AND 0x07"] tp[of 0]
    by (auto simp: analyze_header_def Let_def payload_length_def split: if_splits)
  have bb: "b AND 0xc7 = b" by (rule lc_zero_sanitized[OF lc])
  have h0: "(buffer p)[0 := b] ! 0 = b"
    using len by (simp add: BUFFER_LEN_34)
  have fa: "(SYS_BASE m OR ACK m) AND 0x07 = ACK m"
    using header_fields(2)[OF c a, of 0] by simp
  have fn: "(SYS_BASE m OR NACK m) AND 0x07 = NACK m"
    using header_fields(2)[OF c n, of 0] by simp
  from cls show ?thesis
  proof
    assume "b AND 0xc7 = SYS_BASE m OR ACK m"
    then have e: "b = SYS_BASE m OR ACK m" using bb by simp
    have "sys_switch m (b AND 0x07) = Some RECEIVED_SYS_ACK"
      unfolding e fa using ne by (simp add: sys_switch_def)
    then show ?thesis
      using update_header_valid_sys[OF st v z, of fcs] h0 e by (simp add: assign_res_def)
  next
    assume "b AND 0xc7 = SYS_BASE m OR NACK m"
    then have e: "b = SYS_BASE m OR NACK m" using bb by simp
    have "sys_switch m (b AND 0x07) = Some RECEIVED_SYS_NACK"
      unfolding e fn by (simp add: sys_switch_def)
    then show ?thesis
      using update_header_valid_sys[OF st v z, of fcs] h0 e by (simp add: assign_res_def)
  qed
qed

text \<open>
  C8. In WAITING_FOR_HEADER a valid header with payload length 0 (the SYS class) is a
  complete message: \<^verbatim>\<open>update\<close> returns RECEIVED_SYS_ACK for the ACK subtype and
  RECEIVED_SYS_NACK for the NACK subtype, and the parser stays in WAITING_FOR_HEADER
  (only buffer index 0 changes).
\<close>

theorem sys_header_single_byte:
  assumes m: "magics_ok m" and st: "current_state p = WAIT_HEADER"
    and len: "length (buffer p) = BUFFER_LEN"
    and v: "header_valid (analyze_header m b)"
    and z: "info_payload_length (analyze_header m b) = 0"
  shows "(b = SYS_BASE m OR ACK m \<and>
          update m fcs b p =
            Some (\<lparr>res = RECEIVED_SYS_ACK, hdr = b, len = 0\<rparr>,
                  p\<lparr>buffer := (buffer p)[0 := b]\<rparr>)) \<or>
         (b = SYS_BASE m OR NACK m \<and>
          update m fcs b p =
            Some (\<lparr>res = RECEIVED_SYS_NACK, hdr = b, len = 0\<rparr>,
                  p\<lparr>buffer := (buffer p)[0 := b]\<rparr>))"
  using sys_header_result[OF m st len v z] .

lemma ev3_ack_valid:
  "header_valid (analyze_header ev3_magics 0x04)"
  "info_payload_length (analyze_header ev3_magics 0x04) = 0"
  by (simp_all add: analyze_header_def ev3_magics_def)

theorem sys_header_single_byte_witness:
  "magics_ok ev3_magics \<and> current_state (Parser_new zero_buffer) = WAIT_HEADER \<and>
   length (buffer (Parser_new zero_buffer)) = BUFFER_LEN \<and>
   header_valid (analyze_header ev3_magics 0x04) \<and>
   info_payload_length (analyze_header ev3_magics 0x04) = 0 \<and>
   update ev3_magics ev3_checksum 0x04 (Parser_new zero_buffer) =
     Some (\<lparr>res = RECEIVED_SYS_ACK, hdr = 0x04, len = 0\<rparr>,
           (Parser_new zero_buffer)\<lparr>buffer := (buffer (Parser_new zero_buffer))[0 := 0x04]\<rparr>)"
proof -
  have l: "length (buffer (Parser_new zero_buffer)) = BUFFER_LEN"
    by (simp add: Parser_new_length zero_buffer_length)
  have "(0x04::byte) \<noteq> SYS_BASE ev3_magics OR NACK ev3_magics"
    by (simp add: ev3_magics_def)
  then show ?thesis
    using sys_header_single_byte[OF ev3_magics_ok Parser_new_state l ev3_ack_valid,
        of ev3_checksum] ev3_magics_ok Parser_new_state l ev3_ack_valid
    by simp
qed

subsection \<open>Reachable states\<close>

lemma byte_succ: "unat (a::byte) \<le> 33 \<Longrightarrow> unat (a + 1) = unat a + 1"
  by (simp add: unat_word_ariths)

lemma byte_pred: "1 \<le> unat (c::byte) \<Longrightarrow> unat (c - 1) = unat c - 1"
  by (simp add: unat_sub word_le_nat_alt)

lemma byte_ne_1: "(c::byte) \<noteq> 1 \<Longrightarrow> unat c \<noteq> 1"
  by (simp add: word_unat_eq_iff)

lemma write_index_unat:
  assumes pe: "1 \<le> unat (message_pending_bytes p)"
    "unat (message_pending_bytes p) \<le> unat (message_payload_length p) + 1"
    and pl: "unat (message_payload_length p) \<le> 32"
  shows "unat (write_index p) = unat (message_payload_length p) + 2 - unat (message_pending_bytes p)"
proof -
  have s: "unat (message_payload_length p + 1) = unat (message_payload_length p) + 1"
    using pl by (simp add: byte_succ)
  have "message_pending_bytes p \<le> message_payload_length p + 1"
    using pe s by (simp add: word_le_nat_alt)
  then have d: "unat (message_payload_length p + 1 - message_pending_bytes p) =
      unat (message_payload_length p) + 1 - unat (message_pending_bytes p)"
    using s by (simp add: unat_sub)
  have "unat (message_payload_length p + 1 - message_pending_bytes p + 1) =
      unat (message_payload_length p + 1 - message_pending_bytes p) + 1"
    using d pl pe by (intro byte_succ) simp
  then show ?thesis
    using d pe by (simp add: write_index_def)
qed

lemma parser_inv_update:
  assumes inv: "parser_inv m p"
  shows "\<exists>r p'. update m fcs b p = Some (r, p') \<and> parser_inv m p'"
proof (cases "current_state p")
  case WAIT_HEADER
  from inv have len: "length (buffer p) = BUFFER_LEN" by (simp add: parser_inv_def)
  show ?thesis
  proof (cases "header_valid (analyze_header m b)")
    case False
    show ?thesis
      unfolding update_header_invalid[OF WAIT_HEADER False]
      using len WAIT_HEADER by (simp add: parser_inv_def)
  next
    case True
    show ?thesis
    proof (cases "info_payload_length (analyze_header m b) = 0")
      case z: True
      show ?thesis
        unfolding update_header_valid_sys[OF WAIT_HEADER True z]
        using len WAIT_HEADER by (simp add: parser_inv_def)
    next
      case nz: False
      have pl: "1 \<le> unat (info_payload_length (analyze_header m b))"
        "unat (info_payload_length (analyze_header m b)) \<le> 32"
        using analyze_header_pl[OF True] nz by auto
      then have pe: "unat (info_payload_length (analyze_header m b) + 1) =
          unat (info_payload_length (analyze_header m b)) + 1"
        by (simp add: byte_succ)
      have h0: "(buffer p)[0 := b] ! 0 = b"
        using len by (simp add: BUFFER_LEN_34)
      show ?thesis
        unfolding update_header_valid_cmd[OF WAIT_HEADER True nz]
        using len True pl pe h0 by (simp add: parser_inv_def)
    qed
  qed
next
  case WAIT_CHECKSUM
  from inv WAIT_CHECKSUM have len: "length (buffer p) = BUFFER_LEN"
    and v: "header_valid (analyze_header m (buffer p ! 0))"
    and e: "info_payload_length (analyze_header m (buffer p ! 0)) = message_payload_length p"
    and pl: "1 \<le> unat (message_payload_length p)" "unat (message_payload_length p) \<le> 32"
    and pe: "1 \<le> unat (message_pending_bytes p)"
      "unat (message_pending_bytes p) \<le> unat (message_payload_length p) + 1"
    by (simp_all add: parser_inv_def)
  note wi = write_index_unat[OF pe pl(2)]
  have wib: "unat (write_index p) < BUFFER_LEN"
    using wi pe pl by (simp add: BUFFER_LEN_34)
  have wi0: "unat (write_index p) \<noteq> 0"
    using wi pe pl by simp
  have h0: "(buffer p)[unat (write_index p) := b] ! 0 = buffer p ! 0"
    using wi0 by simp
  show ?thesis
  proof (cases "message_pending_bytes p = 1")
    case True
    have nb: "unat (message_payload_length p) + 1 \<le> BUFFER_LEN"
      using pl by (simp add: BUFFER_LEN_34)
    show ?thesis
      unfolding update_checksum_last[OF WAIT_CHECKSUM wib True nb] Let_def
      using len by (simp add: parser_inv_def)
  next
    case False
    then have "unat (message_pending_bytes p) \<noteq> 1"
      by (rule byte_ne_1)
    then have pe': "1 \<le> unat (message_pending_bytes p - 1)"
      "unat (message_pending_bytes p - 1) \<le> unat (message_payload_length p) + 1"
      using pe byte_pred[OF pe(1)] by simp_all
    show ?thesis
      unfolding update_checksum_more[OF WAIT_CHECKSUM wib False]
      using len WAIT_CHECKSUM v e pl pe' h0 by (simp add: parser_inv_def)
  qed
qed

lemma parser_inv_update':
  "parser_inv m p \<Longrightarrow> update m fcs b p = Some (r, p') \<Longrightarrow> parser_inv m p'"
  using parser_inv_update[of m p fcs b] by auto

lemma parser_inv_new: "length buf = BUFFER_LEN \<Longrightarrow> parser_inv m (Parser_new buf)"
  by (simp add: parser_inv_def Parser_new_def STATE_START_def)

lemma parser_inv_reset: "parser_inv m p \<Longrightarrow> parser_inv m (reset_state p)"
  by (simp add: parser_inv_def reset_state_def STATE_START_def)

lemma parser_inv_store: "parser_inv m p \<Longrightarrow> parser_inv m (data_store i v p)"
  by (simp add: parser_inv_def data_store_def)

lemma reachable_inv: "reachable m fcs p \<Longrightarrow> parser_inv m p"
proof (induction rule: reachable.induct)
  case (constructed buf)
  then show ?case by (simp add: parser_inv_new)
next
  case (updated p b r p')
  then show ?case using parser_inv_update' by blast
next
  case (reset p)
  then show ?case by (simp add: parser_inv_reset)
next
  case (stored p i v)
  then show ?case by (simp add: parser_inv_store)
qed

lemma cmd_switch_accepted:
  assumes m: "magics_ok m" and v: "header_valid (analyze_header m h)"
    and nz: "info_payload_length (analyze_header m h) \<noteq> 0"
  shows "cmd_switch m (h AND 0x07) = Some RECEIVED_CMD_SELECT \<or>
         cmd_switch m (h AND 0x07) = Some RECEIVED_CMD_WRITE"
proof -
  from m have c: "CMD_BASE m AND 0x3f = 0"
    and s: "SELECT m AND 0xf8 = 0" and w: "WRITE m AND 0xf8 = 0"
    by (simp_all add: magics_ok_def layout_ok_def)
  from v nz have cls: "h AND 0xc7 = CMD_BASE m OR SELECT m \<or> h AND 0xc7 = CMD_BASE m OR WRITE m"
    by (auto simp: analyze_header_def Let_def split: if_splits)
  have h7: "h AND 0x07 = (h AND 0xc7) AND 0x07"
    by (simp add: and.assoc)
  from cls show ?thesis
  proof
    assume "h AND 0xc7 = CMD_BASE m OR SELECT m"
    then have "h AND 0x07 = SELECT m"
      unfolding h7 using header_fields(2)[OF c s, of 0] by simp
    then show ?thesis by (simp add: cmd_switch_def)
  next
    assume "h AND 0xc7 = CMD_BASE m OR WRITE m"
    then have "h AND 0x07 = WRITE m"
      unfolding h7 using header_fields(2)[OF c w, of 0] by simp
    then show ?thesis by (simp add: cmd_switch_def)
  qed
qed

lemma sys_switch_accepted:
  assumes m: "magics_ok m" and st: "current_state (p::Parser) = WAIT_HEADER"
    and len: "length (buffer p) = BUFFER_LEN"
    and v: "header_valid (analyze_header m b)"
    and z: "info_payload_length (analyze_header m b) = 0"
  shows "sys_switch m (b AND 0x07) = Some RECEIVED_SYS_ACK \<or>
         sys_switch m (b AND 0x07) = Some RECEIVED_SYS_NACK"
proof (cases "sys_switch m (b AND 0x07)")
  case None
  then show ?thesis
    using sys_header_result[OF m st len v z, of fcs] update_header_valid_sys[OF st v z, of fcs]
    by (auto simp: assign_res_def)
next
  case (Some a)
  then show ?thesis by (auto simp: sys_switch_def split: if_splits)
qed

text \<open>
  C9. The subtype switches of \<^verbatim>\<open>update\<close> that have no default label never fall through
  in a reachable state: when the SYS switch executes (valid header, payload length 0) the
  subtype is ACK or NACK; when a frame is being collected the stored header at index 0
  has subtype SELECT or WRITE, so the switch after a matching checksum finds a case. The
  outcome is thus never left at its initial value by a switch: INSUFFICIENT_DATA is
  returned only while a frame is still being collected.
\<close>

theorem subtype_switches_total:
  assumes m: "magics_ok m" and r: "reachable m fcs p"
  shows "(current_state p = WAIT_HEADER \<and> header_valid (analyze_header m b) \<and>
          \<not> info_payload_length (analyze_header m b) > 0 \<longrightarrow>
            sys_switch m (header_sanitized (analyze_header m b) AND 0x07) = Some RECEIVED_SYS_ACK \<or>
            sys_switch m (header_sanitized (analyze_header m b) AND 0x07) = Some RECEIVED_SYS_NACK) \<and>
         (current_state p = WAIT_CHECKSUM \<longrightarrow>
            cmd_switch m ((buffer p)[unat (write_index p) := b] ! 0 AND 0x07) = Some RECEIVED_CMD_SELECT \<or>
            cmd_switch m ((buffer p)[unat (write_index p) := b] ! 0 AND 0x07) = Some RECEIVED_CMD_WRITE) \<and>
         (\<forall>rtn p'. update m fcs b p = Some (rtn, p') \<and> res rtn = INSUFFICIENT_DATA \<longrightarrow>
            current_state p' = WAIT_CHECKSUM)"
proof (intro conjI impI allI)
  note inv = reachable_inv[OF r]
  then have len: "length (buffer p) = BUFFER_LEN" by (simp add: parser_inv_def)
  {
    assume a: "current_state p = WAIT_HEADER \<and> header_valid (analyze_header m b) \<and>
          \<not> info_payload_length (analyze_header m b) > 0"
    then have z: "info_payload_length (analyze_header m b) = 0"
      by (simp add: word_greater_zero_iff)
    from a have "sys_switch m (b AND 0x07) = Some RECEIVED_SYS_ACK \<or>
        sys_switch m (b AND 0x07) = Some RECEIVED_SYS_NACK"
      using sys_switch_accepted[OF m _ len _ z] by blast
    then show "sys_switch m (header_sanitized (analyze_header m b) AND 0x07) = Some RECEIVED_SYS_ACK \<or>
            sys_switch m (header_sanitized (analyze_header m b) AND 0x07) = Some RECEIVED_SYS_NACK"
      by (simp add: analyze_header_sanitized and.assoc)
  }
  {
    assume st: "current_state p = WAIT_CHECKSUM"
    from inv st have v: "header_valid (analyze_header m (buffer p ! 0))"
      and e: "info_payload_length (analyze_header m (buffer p ! 0)) = message_payload_length p"
      and pl: "1 \<le> unat (message_payload_length p)" "unat (message_payload_length p) \<le> 32"
      and pe: "1 \<le> unat (message_pending_bytes p)"
        "unat (message_pending_bytes p) \<le> unat (message_payload_length p) + 1"
      by (simp_all add: parser_inv_def)
    have nz: "info_payload_length (analyze_header m (buffer p ! 0)) \<noteq> 0"
      unfolding e using pl by (auto simp: word_unat_eq_iff)
    have "unat (write_index p) \<noteq> 0"
      using write_index_unat[OF pe pl(2)] pe by simp
    then have h0: "(buffer p)[unat (write_index p) := b] ! 0 = buffer p ! 0" by simp
    show "cmd_switch m ((buffer p)[unat (write_index p) := b] ! 0 AND 0x07) = Some RECEIVED_CMD_SELECT \<or>
            cmd_switch m ((buffer p)[unat (write_index p) := b] ! 0 AND 0x07) = Some RECEIVED_CMD_WRITE"
      unfolding h0 by (rule cmd_switch_accepted[OF m v nz])
  }
  note cmd = this
  {
    fix rtn p'
    assume u: "update m fcs b p = Some (rtn, p') \<and> res rtn = INSUFFICIENT_DATA"
    show "current_state p' = WAIT_CHECKSUM"
    proof (cases "current_state p")
      case WAIT_HEADER
      show ?thesis
      proof (cases "header_valid (analyze_header m b)")
        case False
        then show ?thesis
          using u update_header_invalid[OF WAIT_HEADER False, of fcs] by auto
      next
        case True
        show ?thesis
        proof (cases "info_payload_length (analyze_header m b) = 0")
          case z: True
          then show ?thesis
            using u sys_header_result[OF m WAIT_HEADER len True z, of fcs] by auto
        next
          case nz: False
          then show ?thesis
            using u update_header_valid_cmd[OF WAIT_HEADER True nz, of fcs] by auto
        qed
      qed
    next
      case WAIT_CHECKSUM
      from inv WAIT_CHECKSUM have
        pl: "1 \<le> unat (message_payload_length p)" "unat (message_payload_length p) \<le> 32"
        and pe: "1 \<le> unat (message_pending_bytes p)"
          "unat (message_pending_bytes p) \<le> unat (message_payload_length p) + 1"
        by (simp_all add: parser_inv_def)
      have wib: "unat (write_index p) < BUFFER_LEN"
        using write_index_unat[OF pe pl(2)] pe pl by (simp add: BUFFER_LEN_34)
      show ?thesis
      proof (cases "message_pending_bytes p = 1")
        case True
        have nb: "unat (message_payload_length p) + 1 \<le> BUFFER_LEN"
          using pl by (simp add: BUFFER_LEN_34)
        show ?thesis
          using u cmd[OF WAIT_CHECKSUM]
          unfolding update_checksum_last[OF WAIT_CHECKSUM wib True nb] Let_def
          by (auto simp: assign_res_def split: if_splits)
      next
        case False
        show ?thesis
          using u WAIT_CHECKSUM unfolding update_checksum_more[OF WAIT_CHECKSUM wib False]
          by auto
      qed
    qed
  }
qed


lemma ev3_collecting_update:
  "update ev3_magics ev3_checksum 0x4c (Parser_new zero_buffer) =
     Some (\<lparr>res = INSUFFICIENT_DATA, hdr = 0x4c, len = 0\<rparr>, ev3_collecting)"
  by (simp add: eval_defs ev3_collecting_def)

lemma ev3_new_reachable: "reachable ev3_magics ev3_checksum (Parser_new zero_buffer)"
  by (rule reachable.constructed[OF zero_buffer_length])

lemma ev3_collecting_reachable: "reachable ev3_magics ev3_checksum ev3_collecting"
  by (rule reachable.updated[OF ev3_new_reachable ev3_collecting_update])

lemma ev3_collecting_step:
  "update ev3_magics ev3_checksum 0x10 ev3_collecting =
     Some (\<lparr>res = INSUFFICIENT_DATA, hdr = 0x4c, len = 0\<rparr>,
           ev3_collecting\<lparr>buffer := (buffer ev3_collecting)[1 := 0x10],
                           message_pending_bytes := 2\<rparr>)"
  by (simp add: eval_defs ev3_collecting_def)

theorem subtype_switches_total_witness:
  "magics_ok ev3_magics \<and> reachable ev3_magics ev3_checksum (Parser_new zero_buffer) \<and>
   current_state (Parser_new zero_buffer) = WAIT_HEADER \<and>
   header_valid (analyze_header ev3_magics 0x04) \<and>
   \<not> info_payload_length (analyze_header ev3_magics 0x04) > 0 \<and>
   sys_switch ev3_magics (header_sanitized (analyze_header ev3_magics 0x04) AND 0x07) =
     Some RECEIVED_SYS_ACK \<and>
   reachable ev3_magics ev3_checksum ev3_collecting \<and>
   current_state ev3_collecting = WAIT_CHECKSUM \<and>
   cmd_switch ev3_magics ((buffer ev3_collecting)[unat (write_index ev3_collecting) := 0x10] ! 0
       AND 0x07) = Some RECEIVED_CMD_WRITE \<and>
   update ev3_magics ev3_checksum 0x10 ev3_collecting =
     Some (\<lparr>res = INSUFFICIENT_DATA, hdr = 0x4c, len = 0\<rparr>,
           ev3_collecting\<lparr>buffer := (buffer ev3_collecting)[1 := 0x10],
                           message_pending_bytes := 2\<rparr>) \<and>
   current_state (ev3_collecting\<lparr>buffer := (buffer ev3_collecting)[1 := 0x10],
                                   message_pending_bytes := 2\<rparr>) = WAIT_CHECKSUM"
proof -
  have a: "sys_switch ev3_magics (header_sanitized (analyze_header ev3_magics 0x04) AND 0x07)
      \<noteq> Some RECEIVED_SYS_NACK"
    by (simp add: sys_switch_def analyze_header_sanitized ev3_magics_def)
  have b: "cmd_switch ev3_magics
      ((buffer ev3_collecting)[unat (write_index ev3_collecting) := 0x10] ! 0 AND 0x07)
      \<noteq> Some RECEIVED_CMD_SELECT"
    by (simp add: cmd_switch_def ev3_collecting_def write_index_def zero_buffer_def ev3_magics_def)
  have s: "current_state ev3_collecting = WAIT_CHECKSUM"
    by (simp add: ev3_collecting_def)
  have z: "\<not> info_payload_length (analyze_header ev3_magics 0x04) > 0"
    using ev3_ack_valid(2) by simp
  show ?thesis
    using subtype_switches_total[OF ev3_magics_ok ev3_new_reachable, of "0x04"]
      subtype_switches_total[OF ev3_magics_ok ev3_collecting_reachable, of "0x10"]
      a b s z ev3_magics_ok ev3_new_reachable ev3_collecting_reachable Parser_new_state
      ev3_ack_valid(1) ev3_collecting_step
    by simp
qed

text \<open>
  C10. In every reachable state every buffer access of \<^verbatim>\<open>update\<close> is inside the 34-byte
  array (the call returns a result, never the out-of-bounds value): the writes are at
  index 0 and at \<open>write_index = (payload_length + 1 - pending_bytes) + 1\<close>, with
  \<open>1 \<le> write_index \<le> payload_length + 1 \<le> 33 < BUFFER_LEN\<close>, and while a frame is
  collected \<open>pending_bytes\<close> is between 1 and \<open>payload_length + 1\<close>.
\<close>

theorem buffer_accesses_in_bounds:
  assumes r: "reachable m fcs p"
  shows "length (buffer p) = BUFFER_LEN \<and> 0 < BUFFER_LEN \<and>
         (\<exists>rtn p'. update m fcs b p = Some (rtn, p')) \<and>
         (current_state p = WAIT_CHECKSUM \<longrightarrow>
            1 \<le> unat (message_pending_bytes p) \<and>
            unat (message_pending_bytes p) \<le> unat (message_payload_length p) + 1 \<and>
            unat (write_index p) =
              (unat (message_payload_length p) + 1 - unat (message_pending_bytes p)) + 1 \<and>
            1 \<le> unat (write_index p) \<and>
            unat (write_index p) \<le> unat (message_payload_length p) + 1 \<and>
            unat (message_payload_length p) + 1 \<le> 33 \<and> 33 < BUFFER_LEN)"
proof -
  note inv = reachable_inv[OF r]
  have u: "\<exists>rtn p'. update m fcs b p = Some (rtn, p')"
    using parser_inv_update[OF inv, of fcs b] by blast
  have c: "1 \<le> unat (message_pending_bytes p) \<and>
            unat (message_pending_bytes p) \<le> unat (message_payload_length p) + 1 \<and>
            unat (write_index p) =
              (unat (message_payload_length p) + 1 - unat (message_pending_bytes p)) + 1 \<and>
            1 \<le> unat (write_index p) \<and>
            unat (write_index p) \<le> unat (message_payload_length p) + 1 \<and>
            unat (message_payload_length p) + 1 \<le> 33 \<and> 33 < BUFFER_LEN"
    if st: "current_state p = WAIT_CHECKSUM"
  proof -
    from inv st have
      pl: "1 \<le> unat (message_payload_length p)" "unat (message_payload_length p) \<le> 32"
      and pe: "1 \<le> unat (message_pending_bytes p)"
        "unat (message_pending_bytes p) \<le> unat (message_payload_length p) + 1"
      by (simp_all add: parser_inv_def)
    show ?thesis
      using write_index_unat[OF pe pl(2)] pl pe unfolding BUFFER_LEN_34 by arith
  qed
  have l: "length (buffer p) = BUFFER_LEN"
    using inv by (simp add: parser_inv_def)
  have z: "0 < BUFFER_LEN"
    by (simp add: BUFFER_LEN_34)
  show ?thesis
    using l z u c by blast
qed

theorem buffer_accesses_in_bounds_witness:
  "reachable ev3_magics ev3_checksum ev3_collecting \<and>
   current_state ev3_collecting = WAIT_CHECKSUM \<and>
   length (buffer ev3_collecting) = BUFFER_LEN \<and>
   (\<exists>rtn p'. update ev3_magics ev3_checksum 0x10 ev3_collecting = Some (rtn, p')) \<and>
   unat (message_pending_bytes ev3_collecting) = 3 \<and>
   unat (message_payload_length ev3_collecting) = 2 \<and>
   unat (write_index ev3_collecting) = 1 \<and> 33 < BUFFER_LEN"
proof -
  have s: "current_state ev3_collecting = WAIT_CHECKSUM"
    by (simp add: ev3_collecting_def)
  have v: "unat (message_pending_bytes ev3_collecting) = 3"
    "unat (message_payload_length ev3_collecting) = 2"
    by (simp_all add: ev3_collecting_def)
  show ?thesis
    using buffer_accesses_in_bounds[OF ev3_collecting_reachable, of "0x10"]
      ev3_collecting_reachable s v
    by simp
qed

subsection \<open>Reset\<close>

lemma update_header_indep:
  assumes st: "current_state p = WAIT_HEADER" and len: "length (buffer p) = BUFFER_LEN"
    and st': "current_state q = WAIT_HEADER" and len': "length (buffer q) = BUFFER_LEN"
  shows "\<exists>r p' q'. update m fcs b p = Some (r, p') \<and> update m fcs b q = Some (r, q') \<and>
           hdr r = b \<and> len r = 0"
proof -
  have h0: "(buffer p)[0 := b] ! 0 = b" "(buffer q)[0 := b] ! 0 = b"
    using len len' by (simp_all add: BUFFER_LEN_34)
  show ?thesis
  proof (cases "header_valid (analyze_header m b)")
    case False
    show ?thesis
      unfolding update_header_invalid[OF st False] update_header_invalid[OF st' False]
      using h0 by simp
  next
    case True
    show ?thesis
    proof (cases "info_payload_length (analyze_header m b) = 0")
      case z: True
      show ?thesis
        unfolding update_header_valid_sys[OF st True z] update_header_valid_sys[OF st' True z]
        using h0 by (simp add: assign_res_def split: option.splits)
    next
      case nz: False
      show ?thesis
        unfolding update_header_valid_cmd[OF st True nz] update_header_valid_cmd[OF st' True nz]
        using h0 by simp
    qed
  qed
qed

lemma feed_single_header_byte:
  assumes st: "current_state p = WAIT_HEADER" and len: "length (buffer p) = BUFFER_LEN"
    and st': "current_state q = WAIT_HEADER" and len': "length (buffer q) = BUFFER_LEN"
  shows "\<exists>rs p' q'. feed m fcs p [b] = Some (rs, p') \<and> feed m fcs q [b] = Some (rs, q')"
proof -
  from update_header_indep[OF st len st' len', of m fcs b]
  obtain r p' q' where u: "update m fcs b p = Some (r, p')" "update m fcs b q = Some (r, q')"
    and r: "len r = 0" by blast
  show ?thesis
    using u r by (simp add: payload_view_def)
qed

lemma partial_frame_state:
  assumes m: "magics_ok m" and b0: "length buf = BUFFER_LEN"
    and h0: "cmd_header m h0 N0 ok0" and pre: "length pre < N0"
    and f0: "feed m fcs (Parser_new buf) (h0 # pre) = Some (rs0, p1)"
  shows "collecting p1 h0 pre N0"
proof -
  note hv = cmd_header_valid[OF m h0]
  have l: "length (buffer (Parser_new buf)) = BUFFER_LEN"
    using b0 by (simp add: Parser_new_length)
  from header_collecting[OF Parser_new_state l, of m h0 N0 fcs] hv
  obtain pa where u: "update m fcs h0 (Parser_new buf) =
      Some (\<lparr>res = INSUFFICIENT_DATA, hdr = h0, len = 0\<rparr>, pa)"
    and c: "collecting pa h0 [] N0" by blast
  have "length ([]::byte list) + length pre \<le> N0" using pre by simp
  from feed_collecting[OF c this, of m fcs]
  obtain pb where f: "feed m fcs pa pre =
      Some (replicate (length pre) (\<lparr>res = INSUFFICIENT_DATA, hdr = h0, len = 0\<rparr>, []), pb)"
    and c': "collecting pb h0 pre N0" by (simp only: append_Nil) blast
  have "p1 = pb" using f0 u f by simp
  then show ?thesis using c' by simp
qed

text \<open>
  C7. After a partially received CMD frame (a header and not all of its payload bytes),
  \<^verbatim>\<open>reset_state\<close> followed by any complete well-formed frame gives, byte for byte,
  exactly the results (outcome, header, \<^verbatim>\<open>len\<close> and payload view) that a freshly
  constructed parser gives for that frame.
\<close>

theorem reset_discards_partial_frame:
  assumes m: "magics_ok m" and b0: "length buf = BUFFER_LEN" and b1: "length buf' = BUFFER_LEN"
    and h0: "cmd_header m h0 N0 ok0" and pre: "length pre < N0"
    and f0: "feed m fcs (Parser_new buf) (h0 # pre) = Some (rs0, p1)"
    and fr: "fr = [SYS_BASE m OR ACK m] \<or> fr = [SYS_BASE m OR NACK m] \<or>
             (cmd_header m h (length payload) ok \<and> fr = h # payload @ [fcs (h # payload)])"
  shows "\<exists>rs q q'. feed m fcs (reset_state p1) fr = Some (rs, q) \<and>
           feed m fcs (Parser_new buf') fr = Some (rs, q')"
proof -
  have c: "collecting p1 h0 pre N0"
    by (rule partial_frame_state[OF m b0 h0 pre f0])
  have st: "current_state (reset_state p1) = WAIT_HEADER"
    by (simp add: reset_state_def STATE_START_def)
  have len: "length (buffer (reset_state p1)) = BUFFER_LEN"
    using c by (simp add: reset_state_def collecting_def)
  have len': "length (buffer (Parser_new buf')) = BUFFER_LEN"
    using b1 by (simp add: Parser_new_length)
  from fr consider (sys) b where "fr = [b]"
    | (cmd) "cmd_header m h (length payload) ok" "fr = h # payload @ [fcs (h # payload)]"
    by blast
  then show ?thesis
  proof cases
    case sys
    show ?thesis
      unfolding sys using feed_single_header_byte[OF st len Parser_new_state len'] .
  next
    case cmd
    show ?thesis
      unfolding cmd(2)
      using feed_cmd_frame[OF m st len cmd(1), of fcs "fcs (h # payload)"]
        feed_cmd_frame[OF m Parser_new_state len' cmd(1), of fcs "fcs (h # payload)"]
      by auto
  qed
qed


lemma ev3_partial_frame:
  "feed ev3_magics ev3_checksum (Parser_new zero_buffer) [0x4c, 0x10] =
     Some ([(\<lparr>res = INSUFFICIENT_DATA, hdr = 0x4c, len = 0\<rparr>, []),
            (\<lparr>res = INSUFFICIENT_DATA, hdr = 0x4c, len = 0\<rparr>, [])],
           ev3_collecting\<lparr>buffer := (buffer ev3_collecting)[1 := 0x10],
                           message_pending_bytes := 2\<rparr>)"
  using ev3_collecting_update ev3_collecting_step by (simp add: payload_view_def)

lemma ev3_select_header: "cmd_header ev3_magics 0x43 (length [0x01 :: byte]) RECEIVED_CMD_SELECT"
  by (simp add: cmd_header_def ev3_magics_def)

theorem reset_discards_partial_frame_witness:
  "magics_ok ev3_magics \<and> length zero_buffer = BUFFER_LEN \<and>
   cmd_header ev3_magics 0x4c 2 RECEIVED_CMD_WRITE \<and> length [0x10 :: byte] < 2 \<and>
   feed ev3_magics ev3_checksum (Parser_new zero_buffer) [0x4c, 0x10] =
     Some ([(\<lparr>res = INSUFFICIENT_DATA, hdr = 0x4c, len = 0\<rparr>, []),
            (\<lparr>res = INSUFFICIENT_DATA, hdr = 0x4c, len = 0\<rparr>, [])],
           ev3_collecting\<lparr>buffer := (buffer ev3_collecting)[1 := 0x10],
                           message_pending_bytes := 2\<rparr>) \<and>
   cmd_header ev3_magics 0x43 (length [0x01 :: byte]) RECEIVED_CMD_SELECT \<and>
   (\<exists>rs q q'.
      feed ev3_magics ev3_checksum
        (reset_state (ev3_collecting\<lparr>buffer := (buffer ev3_collecting)[1 := 0x10],
                                       message_pending_bytes := 2\<rparr>))
        [0x43, 0x01, 0xbd] = Some (rs, q) \<and>
      feed ev3_magics ev3_checksum (Parser_new zero_buffer) [0x43, 0x01, 0xbd] = Some (rs, q'))"
proof -
  have w: "cmd_header ev3_magics 0x4c 2 RECEIVED_CMD_WRITE"
    using ev3_write_header by (simp add: numeral_2_eq_2)
  have p: "length [0x10 :: byte] < 2" by simp
  have e: "ev3_checksum [0x43, 0x01] = 0xbd"
    by (simp add: ev3_checksum_def)
  have fr: "[0x43, 0x01, 0xbd] = [SYS_BASE ev3_magics OR ACK ev3_magics] \<or>
      [0x43, 0x01, 0xbd] = [SYS_BASE ev3_magics OR NACK ev3_magics] \<or>
      (cmd_header ev3_magics 0x43 (length [0x01 :: byte]) RECEIVED_CMD_SELECT \<and>
       [0x43, 0x01, 0xbd] = 0x43 # [0x01] @ [ev3_checksum (0x43 # [0x01])])"
    using ev3_select_header e by simp
  show ?thesis
    using reset_discards_partial_frame[OF ev3_magics_ok zero_buffer_length zero_buffer_length
        w p ev3_partial_frame fr]
      ev3_magics_ok zero_buffer_length w p ev3_partial_frame ev3_select_header
    by blast
qed

subsection \<open>The header field\<close>

lemma update_hdr_field:
  assumes inv: "parser_inv m p"
  shows "\<exists>r p'. update m fcs b p = Some (r, p') \<and> parser_inv m p' \<and>
           hdr r = (if current_state p = WAIT_HEADER then b else buffer p ! 0) \<and>
           buffer p' ! 0 = hdr r"
proof -
  from parser_inv_update[OF inv, of fcs b]
  obtain r p' where u: "update m fcs b p = Some (r, p')" and inv': "parser_inv m p'"
    by blast
  from inv have len: "length (buffer p) = BUFFER_LEN" by (simp add: parser_inv_def)
  have h: "hdr r = (if current_state p = WAIT_HEADER then b else buffer p ! 0) \<and>
           buffer p' ! 0 = hdr r"
  proof (cases "current_state p")
    case WAIT_HEADER
    then show ?thesis
      using u len
      by (auto simp: update_def update_header_def return_hdr_def Let_def BUFFER_LEN_34
          split: if_splits)
  next
    case WAIT_CHECKSUM
    from inv WAIT_CHECKSUM have
      pl: "1 \<le> unat (message_payload_length p)" "unat (message_payload_length p) \<le> 32"
      and pe: "1 \<le> unat (message_pending_bytes p)"
        "unat (message_pending_bytes p) \<le> unat (message_payload_length p) + 1"
      by (simp_all add: parser_inv_def)
    have "unat (write_index p) \<noteq> 0"
      using write_index_unat[OF pe pl(2)] pe by simp
    then have h0: "(buffer p)[unat (write_index p) := b] ! 0 = buffer p ! 0" by simp
    show ?thesis
      using u WAIT_CHECKSUM h0
      by (auto simp: update_def update_checksum_def return_hdr_def Let_def split: if_splits)
  qed
  show ?thesis using u inv' h by blast
qed

lemma feed_hdr_field:
  "parser_inv m p \<Longrightarrow>
   \<exists>rs q. feed m fcs p bs = Some (rs, q) \<and> length rs = length bs \<and>
     (bs \<noteq> [] \<longrightarrow>
        hdr (fst (last rs)) = last (buffer p ! 0 # header_candidates m fcs p bs))"
proof (induction bs arbitrary: p)
  case Nil
  then show ?case by simp
next
  case (Cons b bs)
  from update_hdr_field[OF Cons.prems, of fcs b]
  obtain r p' where u: "update m fcs b p = Some (r, p')" and inv': "parser_inv m p'"
    and h: "hdr r = (if current_state p = WAIT_HEADER then b else buffer p ! 0)"
    and b0: "buffer p' ! 0 = hdr r" by blast
  from Cons.IH[OF inv']
  obtain rs q where f: "feed m fcs p' bs = Some (rs, q)" and l: "length rs = length bs"
    and ih: "bs \<noteq> [] \<longrightarrow>
        hdr (fst (last rs)) = last (buffer p' ! 0 # header_candidates m fcs p' bs)" by blast
  have ff: "feed m fcs p (b # bs) = Some ((r, payload_view r p') # rs, q)"
    using u f by simp
  have "hdr (fst (last ((r, payload_view r p') # rs))) =
      last (buffer p ! 0 # header_candidates m fcs p (b # bs))"
  proof (cases "bs = []")
    case True
    then show ?thesis using l u h by simp
  next
    case False
    then have "rs \<noteq> []" using l by auto
    then show ?thesis
      using ih False u h b0 by (cases "header_candidates m fcs p' bs = []") auto
  qed
  then show ?case using ff l by simp
qed

text \<open>
  C6, as amended. For every call of \<^verbatim>\<open>update\<close> the returned header field is the byte
  most recently consumed as a header candidate (in WAITING_FOR_HEADER), whether or not
  that byte was accepted as a valid header; it is set for every outcome, including
  RECEIVED_INVALID_HEADER and INSUFFICIENT_DATA.
\<close>

theorem hdr_is_latest_candidate:
  assumes "reachable m fcs p" and "bs \<noteq> []"
  shows "\<exists>rs q. feed m fcs p bs = Some (rs, q) \<and> length rs = length bs \<and>
           hdr (fst (last rs)) = last (buffer p ! 0 # header_candidates m fcs p bs)"
  using feed_hdr_field[OF reachable_inv[OF assms(1)], of fcs bs] assms(2) by blast

lemma ev3_ack_then_invalid:
  "feed ev3_magics ev3_checksum (Parser_new zero_buffer) [0x04, 0xff] =
     Some ([(\<lparr>res = RECEIVED_SYS_ACK, hdr = 0x04, len = 0\<rparr>, []),
            (\<lparr>res = RECEIVED_INVALID_HEADER, hdr = 0xff, len = 0\<rparr>, [])],
           Parser_new (zero_buffer[0 := 0xff]))"
  by (simp add: eval_defs payload_view_def data_def)

lemma ev3_ack_then_invalid_candidates:
  "header_candidates ev3_magics ev3_checksum (Parser_new zero_buffer) [0x04, 0xff] = [0x04, 0xff]"
  by (simp add: eval_defs)

lemma ev3_ack_then_invalid_accepted:
  "accepted_headers ev3_magics ev3_checksum (Parser_new zero_buffer) [0x04, 0xff] = [0x04]"
  unfolding accepted_headers_def ev3_ack_then_invalid_candidates
  by (simp add: analyze_header_def ev3_magics_def)

theorem hdr_is_latest_candidate_witness:
  "reachable ev3_magics ev3_checksum (Parser_new zero_buffer) \<and> [0x04, 0xff :: byte] \<noteq> [] \<and>
   feed ev3_magics ev3_checksum (Parser_new zero_buffer) [0x04, 0xff] =
     Some ([(\<lparr>res = RECEIVED_SYS_ACK, hdr = 0x04, len = 0\<rparr>, []),
            (\<lparr>res = RECEIVED_INVALID_HEADER, hdr = 0xff, len = 0\<rparr>, [])],
           Parser_new (zero_buffer[0 := 0xff])) \<and>
   last (buffer (Parser_new zero_buffer) ! 0 #
         header_candidates ev3_magics ev3_checksum (Parser_new zero_buffer) [0x04, 0xff]) = 0xff"
proof -
  have n: "[0x04, 0xff :: byte] \<noteq> []" by simp
  show ?thesis
    using hdr_is_latest_candidate[OF ev3_new_reachable n] ev3_new_reachable
      ev3_ack_then_invalid
    by simp
qed

text \<open>
  C6, as stated (the header field is the most recently accepted valid header), fails:
  after the accepted header 0x04 (SYS|ACK) the rejected byte 0xff is returned as the
  header of the RECEIVED_INVALID_HEADER result.
\<close>

theorem hdr_after_rejected_header:
  "\<not> hdr_is_last_accepted ev3_magics ev3_checksum (Parser_new zero_buffer) [0x04, 0xff]"
  unfolding hdr_is_last_accepted_def ev3_ack_then_invalid ev3_ack_then_invalid_accepted
  by simp

end
